theory Spec2Isabelle
  imports Complex_Main "HOL-Library.AList" "HOL-Library.FSet"
    "HOL-Library.Sublist" "HOL-Library.List_Lexorder" "HOL-Library.Char_ord"
begin

section \<open>Python values used by pagerank.py\<close>

datatype error = KeyError | ZeroDivisionError | IndexError | ValueError

type_synonym 'a result = "error + 'a"

type_synonym ('k, 'v) dict = "('k \<times> 'v) list"

type_synonym 'p corpus = "('p, 'p fset) dict"

definition bind :: "'a result \<Rightarrow> ('a \<Rightarrow> 'b result) \<Rightarrow> 'b result" where
  "bind m f = (case m of Inl e \<Rightarrow> Inl e | Inr x \<Rightarrow> f x)"

fun for_each :: "('a \<Rightarrow> 's \<Rightarrow> 's result) \<Rightarrow> 'a list \<Rightarrow> 's \<Rightarrow> 's result" where
  "for_each body [] s = Inr s"
| "for_each body (x # xs) s = bind (body x s) (for_each body xs)"

definition keys :: "('k, 'v) dict \<Rightarrow> 'k list" where
  "keys d = map fst d"

definition dict_values :: "('k, 'v) dict \<Rightarrow> 'v list" where
  "dict_values d = map snd d"

definition getitem :: "('k, 'v) dict \<Rightarrow> 'k \<Rightarrow> 'v result" where
  "getitem d k = (case map_of d k of None \<Rightarrow> Inl KeyError | Some v \<Rightarrow> Inr v)"

definition setitem :: "('k, 'v) dict \<Rightarrow> 'k \<Rightarrow> 'v \<Rightarrow> ('k, 'v) dict" where
  "setitem d k v = AList.update k v d"

definition fromkeys :: "'k list \<Rightarrow> 'v \<Rightarrow> ('k, 'v) dict" where
  "fromkeys ks v = fold (\<lambda>k d. setitem d k v) ks []"

definition add_item :: "'k \<Rightarrow> 'v::plus \<Rightarrow> ('k, 'v) dict \<Rightarrow> ('k, 'v) dict result" where
  "add_item k x d = bind (getitem d k) (\<lambda>v. Inr (setitem d k (v + x)))"

definition true_div :: "real \<Rightarrow> real \<Rightarrow> real result" where
  "true_div a b = (if b = 0 then Inl ZeroDivisionError else Inr (a / b))"

section \<open>crawl\<close>

text \<open>
  The directory is the listing \<open>os.listdir\<close> returns, each file name paired with the
  text \<open>f.read()\<close> gives for it; \<open>findall\<close> stands for the regular-expression search
  \<open>re.findall\<close> with the pattern of the source. Failures of the file system are not part of
  the model.
\<close>

definition extract_page ::
  "(string \<Rightarrow> string list) \<Rightarrow> string \<times> string \<Rightarrow> string corpus \<Rightarrow> string corpus" where
  \<comment> \<open>body of the first loop: "Extract all links from HTML files"\<close>
  "extract_page findall = (\<lambda>(filename, contents) pages.
     if \<not> suffix ''.html'' filename then pages
     else let links = findall contents in
          setitem pages filename (fset_of_list links |-| {|filename|}))"

definition extract_links :: "(string \<Rightarrow> string list) \<Rightarrow> (string \<times> string) list \<Rightarrow> string corpus" where
  "extract_links findall directory = fold (extract_page findall) directory []"

definition crawl :: "(string \<Rightarrow> string list) \<Rightarrow> (string \<times> string) list \<Rightarrow> string corpus result" where
  \<comment> \<open>the second loop: "Only include links to other pages in the corpus"\<close>
  "crawl findall directory =
     (let pages = extract_links findall directory
      in for_each (\<lambda>filename pages.
             bind (getitem pages filename) (\<lambda>links.
             Inr (setitem pages filename (ffilter (\<lambda>link. link \<in> set (keys pages)) links))))
           (keys pages) pages)"

section \<open>transition_model\<close>

definition transition_model ::
  "('p fset \<Rightarrow> 'p list) \<Rightarrow> 'p corpus \<Rightarrow> 'p \<Rightarrow> real \<Rightarrow> ('p, real) dict result" where
  "transition_model enum corpus page damping_factor =
     (let n = length corpus in
      bind (true_div (1 - damping_factor) (real n)) (\<lambda>jump.
      let distribution = fromkeys (keys corpus) jump in
      bind (getitem corpus page) (\<lambda>links.
      if links \<noteq> {||} then
        bind (true_div damping_factor (real (fcard links))) (\<lambda>link_prob.
        for_each (\<lambda>link. add_item link link_prob) (enum links) distribution)
      else
        for_each (\<lambda>key dist. bind (true_div damping_factor (real n)) (\<lambda>share. add_item key share dist))
          (keys distribution) distribution)))"

section \<open>sample_pagerank\<close>

text \<open>
  The module \<open>random\<close> is not part of the repository: its two entry points used here are
  parameters, threading the generator state \<open>'g\<close> explicitly.
\<close>

record ('g, 'p) random_source =
  random_choice :: "'g \<Rightarrow> 'p list \<Rightarrow> ('p \<times> 'g) result"
  random_choices :: "'g \<Rightarrow> 'p list \<Rightarrow> real list \<Rightarrow> ('p \<times> 'g) result"

fun repeat :: "nat \<Rightarrow> ('s \<Rightarrow> 's result) \<Rightarrow> 's \<Rightarrow> 's result" where
  "repeat 0 body s = Inr s"
| "repeat (Suc k) body s = bind (body s) (repeat k body)"

definition sample_step ::
  "('g, 'p) random_source \<Rightarrow> ('p fset \<Rightarrow> 'p list) \<Rightarrow> 'p corpus \<Rightarrow> real \<Rightarrow>
   ('p, int) dict \<times> 'p \<times> 'g \<Rightarrow> (('p, int) dict \<times> 'p \<times> 'g) result" where
  "sample_step rs enum corpus damping_factor = (\<lambda>(pagerank, sample, g).
     bind (add_item sample 1 pagerank) (\<lambda>pagerank'.
     bind (transition_model enum corpus sample damping_factor) (\<lambda>distribution.
     bind (random_choices rs g (keys distribution) (dict_values distribution)) (\<lambda>(sample', g').
     Inr (pagerank', sample', g')))))"

fun divide_values :: "('k, int) dict \<Rightarrow> int \<Rightarrow> ('k, real) dict result" where
  "divide_values [] n = Inr []"
| "divide_values ((page, c) # rest) n =
     bind (true_div (of_int c) (of_int n)) (\<lambda>v.
     bind (divide_values rest n) (\<lambda>rest'. Inr ((page, v) # rest')))"

definition sample_walk ::
  "('g, 'p) random_source \<Rightarrow> ('p fset \<Rightarrow> 'p list) \<Rightarrow> 'p corpus \<Rightarrow> real \<Rightarrow> int \<Rightarrow> 'g \<Rightarrow>
   (('p, int) dict \<times> 'p \<times> 'g) result" where
  "sample_walk rs enum corpus damping_factor n g =
     (let pagerank = fromkeys (keys corpus) (0::int) in
      bind (random_choice rs g (keys corpus)) (\<lambda>(sample, g').
      repeat (nat n) (sample_step rs enum corpus damping_factor) (pagerank, sample, g')))"

definition sample_pagerank ::
  "('g, 'p) random_source \<Rightarrow> ('p fset \<Rightarrow> 'p list) \<Rightarrow> 'p corpus \<Rightarrow> real \<Rightarrow> int \<Rightarrow> 'g \<Rightarrow>
   (('p, real) dict \<times> 'g) result" where
  "sample_pagerank rs enum corpus damping_factor n g =
     bind (sample_walk rs enum corpus damping_factor n g) (\<lambda>(pagerank, sample, g').
     bind (divide_values pagerank n) (\<lambda>ranks. Inr (ranks, g')))"

section \<open>iterate_pagerank\<close>

definition convergence_threshold :: real where
  "convergence_threshold = 1 / 1000"

definition new_total :: "'p corpus \<Rightarrow> real \<Rightarrow> nat \<Rightarrow> ('p, real) dict \<Rightarrow> 'p \<Rightarrow> real result" where
  "new_total corpus damping_factor n pagerank page =
     bind (true_div (1 - damping_factor) (real n)) (\<lambda>total.
     for_each (\<lambda>potential_linker total.
         bind (getitem corpus potential_linker) (\<lambda>links.
         if page |\<in>| links \<or> fcard links = 0 then
           let link_count = (if fcard links \<noteq> 0 then fcard links else n) in
           bind (getitem pagerank potential_linker) (\<lambda>r.
           bind (true_div (damping_factor * r) (real link_count)) (\<lambda>share.
           Inr (total + share)))
         else Inr total))
       (keys corpus) total)"

definition iterate_round ::
  "'p corpus \<Rightarrow> real \<Rightarrow> nat \<Rightarrow> ('p, real) dict \<Rightarrow> ('p, real) dict \<Rightarrow> ('p, real) dict result" where
  "iterate_round corpus damping_factor n pagerank new_rank =
     for_each (\<lambda>page new_rank.
         bind (new_total corpus damping_factor n pagerank page) (\<lambda>total.
         Inr (setitem new_rank page total)))
       (keys pagerank) new_rank"

fun all_of :: "('a \<Rightarrow> bool result) \<Rightarrow> 'a list \<Rightarrow> bool result" where
  "all_of test [] = Inr True"
| "all_of test (x # xs) = bind (test x) (\<lambda>b. if b then all_of test xs else Inr False)"

definition converged :: "('p, real) dict \<Rightarrow> ('p, real) dict \<Rightarrow> bool result" where
  "converged pagerank new_rank =
     all_of (\<lambda>page.
         bind (getitem new_rank page) (\<lambda>new.
         bind (getitem pagerank page) (\<lambda>old.
         Inr (\<bar>new - old\<bar> < convergence_threshold))))
       (keys pagerank)"

partial_function (option) iterate_loop ::
  "'p corpus \<Rightarrow> real \<Rightarrow> nat \<Rightarrow> ('p, real) dict \<Rightarrow> ('p, real) dict \<Rightarrow> ('p, real) dict result option" where
  "iterate_loop corpus damping_factor n pagerank new_rank =
     (case iterate_round corpus damping_factor n pagerank new_rank of
        Inl e \<Rightarrow> Some (Inl e)
      | Inr new_rank' \<Rightarrow>
          (case converged pagerank new_rank' of
             Inl e \<Rightarrow> Some (Inl e)
           | Inr stop \<Rightarrow>
               if stop then Some (Inr pagerank)
               else iterate_loop corpus damping_factor n new_rank' new_rank'))"

definition iterate_pagerank :: "'p corpus \<Rightarrow> real \<Rightarrow> ('p, real) dict result option" where
  "iterate_pagerank corpus damping_factor =
     (let n = length corpus in
      case true_div 1 (real n) of
        Inl e \<Rightarrow> Some (Inl e)
      | Inr start \<Rightarrow>
          iterate_loop corpus damping_factor n
            (fromkeys (keys corpus) start) (fromkeys (keys corpus) 0))"

section \<open>The recurrence of the iterative estimator, as the specification words it\<close>

text \<open>
  These definitions follow the specification, not the code: the rank of a page read from a
  rank vector, the recurrence \<open>new_rank(p) = (1 - d) / N + d * sum over every page q that
  links to p of rank(q) / outdegree(q) + d * sum over every dangling page q of rank(q) / N\<close>,
  the vector of round \<open>k\<close> starting from \<open>1 / N\<close> for every page, and the convergence
  test \<open>|new_rank(p) - rank(p)| < \<epsilon>\<close> for every page.
\<close>

definition value_at :: "('k, real) dict \<Rightarrow> 'k \<Rightarrow> real" where
  "value_at d k = (case map_of d k of Some v \<Rightarrow> v | None \<Rightarrow> 0)"

definition pagerank_recurrence :: "'p corpus \<Rightarrow> real \<Rightarrow> ('p \<Rightarrow> real) \<Rightarrow> 'p \<Rightarrow> real" where
  "pagerank_recurrence corpus d rank p =
     (1 - d) / real (length corpus)
     + d * (\<Sum>(q, links)\<leftarrow>filter (\<lambda>(q, links). p |\<in>| links) corpus. rank q / real (fcard links))
     + d * (\<Sum>(q, links)\<leftarrow>filter (\<lambda>(q, links). fcard links = 0) corpus. rank q / real (length corpus))"

text \<open>
  The factor with which the rank of a page with outbound set \<open>links\<close> enters the new rank
  of \<open>p\<close> in a graph of \<open>n\<close> pages (the two sums of the recurrence under one sum).
\<close>

definition link_weight :: "nat \<Rightarrow> real \<Rightarrow> 'p \<Rightarrow> 'p fset \<Rightarrow> real" where
  "link_weight n d p links =
     (if p |\<in>| links then d / real (fcard links)
      else if fcard links = 0 then d / real n else 0)"

definition next_ranks :: "'p corpus \<Rightarrow> real \<Rightarrow> ('p, real) dict \<Rightarrow> ('p, real) dict" where
  "next_ranks corpus d rank =
     map (\<lambda>p. (p, pagerank_recurrence corpus d (value_at rank) p)) (keys corpus)"

primrec rounds :: "'p corpus \<Rightarrow> real \<Rightarrow> nat \<Rightarrow> ('p, real) dict" where
  "rounds corpus d 0 = map (\<lambda>p. (p, 1 / real (length corpus))) (keys corpus)"
| "rounds corpus d (Suc k) = next_ranks corpus d (rounds corpus d k)"

definition close_enough :: "('p, real) dict \<Rightarrow> ('p, real) dict \<Rightarrow> bool" where
  "close_enough rank new_rank \<longleftrightarrow>
     list_all (\<lambda>p. \<bar>value_at new_rank p - value_at rank p\<bar> < convergence_threshold) (keys rank)"

definition rank_vector :: "'p corpus \<Rightarrow> ('p, real) dict \<Rightarrow> bool" where
  "rank_vector corpus rank \<longleftrightarrow>
     keys rank = keys corpus \<and>
     list_all (\<lambda>v. 0 \<le> v \<and> v \<le> 1) (dict_values rank) \<and>
     sum_list (dict_values rank) = 1"

section \<open>Well-formed inputs\<close>

definition valid_graph :: "'p corpus \<Rightarrow> bool" where
  "valid_graph corpus \<longleftrightarrow>
     distinct (keys corpus) \<and>
     list_all (\<lambda>(k, links). links |\<subseteq>| fset_of_list (keys corpus) \<and> k |\<notin>| links) corpus"

text \<open>
  What the callers rely on from the module \<open>random\<close>: \<open>choice\<close> returns an element of a
  non-empty sequence, and \<open>choices\<close> an element of a non-empty population when there is one
  weight per element and the total weight is positive.
\<close>

definition random_ok :: "('g, 'p) random_source \<Rightarrow> bool" where
  "random_ok rs \<longleftrightarrow>
     (\<forall>g xs. xs \<noteq> [] \<longrightarrow> (\<exists>x g'. random_choice rs g xs = Inr (x, g') \<and> x \<in> set xs)) \<and>
     (\<forall>g xs ws. xs \<noteq> [] \<and> length ws = length xs \<and> 0 < sum_list ws \<longrightarrow>
        (\<exists>x g'. random_choices rs g xs ws = Inr (x, g') \<and> x \<in> set xs))"

definition valid_enum :: "('p fset \<Rightarrow> 'p list) \<Rightarrow> bool" where
  "valid_enum enum \<longleftrightarrow> (\<forall>s. distinct (enum s) \<and> set (enum s) = fset s)"

text \<open>One admissible iteration order of a set of file names, used in the examples.\<close>

abbreviation name_order :: "string fset \<Rightarrow> string list" where
  "name_order \<equiv> sorted_list_of_fset"

definition example_corpus :: "string corpus" where
  "example_corpus =
     [(''1.html'', {|''2.html''|}),
      (''2.html'', {|''1.html'', ''3.html''|}),
      (''3.html'', {|''2.html''|})]"

definition dangling_corpus :: "string corpus" where
  "dangling_corpus = [(''A'', {||}), (''B'', {|''A''|})]"

definition example_findall :: "string \<Rightarrow> string list" where
  "example_findall contents =
     (if contents = ''<a href=\"a.html\">self</a>'' then [''a.html'']
      else if contents = ''<a href=\"a.html\">a</a> <a href=\"x.html\">x</a>'' then [''a.html'', ''x.html'']
      else [])"

definition example_directory :: "(string \<times> string) list" where
  "example_directory =
     [(''a.html'', ''<a href=\"a.html\">self</a>''),
      (''b.html'', ''<a href=\"a.html\">a</a> <a href=\"x.html\">x</a>''),
      (''notes.txt'', ''<a href=\"a.html\">self</a>'')]"

text \<open>
  A seedable random source for the examples: a linear congruential generator, with the
  weighted draw made on the cumulative weights.
\<close>

fun accumulate_from :: "real \<Rightarrow> real list \<Rightarrow> real list" where
  "accumulate_from acc [] = []"
| "accumulate_from acc (w # ws) = (acc + w) # accumulate_from (acc + w) ws"

definition lcg_next :: "nat \<Rightarrow> nat" where
  "lcg_next g = (1103515245 * g + 12345) mod 2147483648"

definition lcg_source :: "(nat, 'p) random_source" where
  "lcg_source =
     \<lparr>random_choice = (\<lambda>g xs.
        if xs = [] then Inl IndexError
        else let g' = lcg_next g in Inr (xs ! (g' mod length xs), g')),
      random_choices = (\<lambda>g xs ws.
        let cum_weights = accumulate_from 0 ws in
        if length cum_weights \<noteq> length xs then Inl ValueError
        else if cum_weights = [] then Inl IndexError
        else
          let total = last cum_weights in
          if total \<le> 0 then Inl ValueError
          else
            let g' = lcg_next g;
                u = real g' / 2147483648 * total;
                i = min (length (takeWhile (\<lambda>c. c \<le> u) cum_weights)) (length xs - 1)
            in Inr (xs ! i, g'))\<rparr>"

section \<open>Properties\<close>

lemma update_fresh: "k \<notin> fst ` set d \<Longrightarrow> AList.update k v d = d @ [(k, v)]"
  by (induction d) auto

lemma fold_setitem_fresh:
  "distinct ks \<Longrightarrow> set ks \<inter> fst ` set d = {} \<Longrightarrow>
   fold (\<lambda>k d. setitem d k v) ks d = d @ map (\<lambda>k. (k, v)) ks"
proof (induction ks arbitrary: d)
  case Nil
  then show ?case by simp
next
  case (Cons k ks)
  have fresh: "k \<notin> fst ` set d" using Cons.prems by auto
  have "set ks \<inter> fst ` set (d @ [(k, v)]) = {}" using Cons.prems by auto
  with Cons show ?case by (simp add: setitem_def update_fresh[OF fresh])
qed

lemma fromkeys_distinct: "distinct ks \<Longrightarrow> fromkeys ks v = map (\<lambda>k. (k, v)) ks"
  using fold_setitem_fresh[of ks "[]" v] by (simp add: fromkeys_def)

lemma update_distinct_map:
  "distinct (map fst d) \<Longrightarrow> k \<in> fst ` set d \<Longrightarrow>
   AList.update k w d = map (\<lambda>(k', v'). (k', if k' = k then w else v')) d"
proof (induction d)
  case Nil
  then show ?case by simp
next
  case (Cons a d)
  obtain a1 a2 where a: "a = (a1, a2)" by (cases a)
  show ?case
  proof (cases "a1 = k")
    case True
    then have "k \<notin> fst ` set d" using Cons.prems a by auto
    then have "map (\<lambda>(k', v'). (k', if k' = k then w else v')) d = d"
      by (induction d) auto
    with True a show ?thesis by simp
  next
    case False
    with Cons a show ?thesis by auto
  qed
qed

lemma modify_item_distinct:
  assumes "distinct (map fst d)" "k \<in> fst ` set d"
  shows "bind (getitem d k) (\<lambda>v. Inr (setitem d k (f v))) =
         Inr (map (\<lambda>(k', v'). (k', if k' = k then f v' else v')) d)"
proof -
  obtain v where "(k, v) \<in> set d" using assms(2) by auto
  then have v: "map_of d k = Some v" using assms(1) by simp
  have "AList.update k (f v) d = map (\<lambda>(k', v'). (k', if k' = k then f v else v')) d"
    by (rule update_distinct_map[OF assms])
  also have "\<dots> = map (\<lambda>(k', v'). (k', if k' = k then f v' else v')) d"
    using assms(1) v by (auto dest: eq_key_imp_eq_value)
  finally show ?thesis
    by (simp add: getitem_def bind_def setitem_def v)
qed

lemma for_each_modify:
  "distinct (map fst d) \<Longrightarrow> distinct xs \<Longrightarrow> set xs \<subseteq> fst ` set d \<Longrightarrow>
   for_each (\<lambda>k d. bind (getitem d k) (\<lambda>v. Inr (setitem d k (F (keys d) v)))) xs d =
     Inr (map (\<lambda>(k, v). (k, if k \<in> set xs then F (keys d) v else v)) d)"
proof (induction xs arbitrary: d)
  case Nil
  then show ?case by (simp add: case_prod_unfold)
next
  case (Cons a xs)
  let ?body = "\<lambda>k d. bind (getitem d k) (\<lambda>v. Inr (setitem d k (F (keys d) v)))"
  let ?d' = "map (\<lambda>(k', v'). (k', if k' = a then F (keys d) v' else v')) d"
  have step: "?body a d = Inr ?d'"
    using Cons.prems by (intro modify_item_distinct) auto
  have keys': "map fst ?d' = map fst d" by (simp add: case_prod_unfold comp_def)
  then have keys'': "keys ?d' = keys d" by (simp add: keys_def)
  have dist': "distinct (map fst ?d')" using Cons.prems(1) by (simp only: keys')
  have sub': "set xs \<subseteq> fst ` set ?d'"
    using Cons.prems(3) keys' by (metis list.set_map set_subset_Cons subset_trans)
  have rest: "for_each ?body xs ?d' =
        Inr (map (\<lambda>(k, v). (k, if k \<in> set xs then F (keys ?d') v else v)) ?d')"
    using Cons.prems(2) dist' sub' by (intro Cons.IH) auto
  have merge: "map (\<lambda>(k, v). (k, if k \<in> set xs then F (keys d) v else v)) ?d' =
        map (\<lambda>(k, v). (k, if k \<in> set (a # xs) then F (keys d) v else v)) d"
    using Cons.prems(2) by (auto simp: case_prod_unfold)
  have "for_each ?body (a # xs) d = bind (?body a d) (for_each ?body xs)" by simp
  also have "\<dots> = bind (Inr ?d') (for_each ?body xs)" by (simp only: step)
  also have "\<dots> = for_each ?body xs ?d'" by (simp add: bind_def)
  also have "\<dots> = Inr (map (\<lambda>(k, v). (k, if k \<in> set xs then F (keys d) v else v)) ?d')"
    by (simp only: rest keys'')
  finally show ?case by (simp only: merge)
qed

lemma for_each_add_item:
  assumes "distinct (map fst d)" "distinct xs" "set xs \<subseteq> fst ` set d"
  shows "for_each (\<lambda>k. add_item k x) xs d =
     Inr (map (\<lambda>(k, v). (k, if k \<in> set xs then v + x else v)) d)"
proof -
  have eq: "(\<lambda>k. add_item k x) = (\<lambda>k d. bind (getitem d k) (\<lambda>v. Inr (setitem d k (v + x))))"
    by (simp add: add_item_def fun_eq_iff)
  show ?thesis
    unfolding eq by (rule for_each_modify[OF assms, of "\<lambda>_ v. v + x"])
qed

lemma valid_graph_links:
  "valid_graph corpus \<Longrightarrow> map_of corpus p = Some links \<Longrightarrow> fset links \<subseteq> set (keys corpus)"
proof -
  assume g: "valid_graph corpus" and p: "map_of corpus p = Some links"
  from p have "(p, links) \<in> set corpus" by (rule map_of_SomeD)
  with g have "links |\<subseteq>| fset_of_list (keys corpus)"
    by (auto simp: valid_graph_def list_all_iff)
  then show ?thesis by (simp add: less_eq_fset.rep_eq fset_of_list.rep_eq)
qed

lemma transition_model_closed:
  assumes g: "valid_graph corpus" and e: "valid_enum enum"
    and p: "map_of corpus p = Some links"
  shows "transition_model enum corpus p d =
     Inr (map (\<lambda>k. (k, (1 - d) / real (length corpus) +
            (if links = {||} then d / real (length corpus)
             else if k |\<in>| links then d / real (fcard links) else 0))) (keys corpus))"
proof -
  let ?n = "real (length corpus)"
  let ?D = "map (\<lambda>k. (k, (1 - d) / ?n)) (keys corpus)"
  have dk: "distinct (keys corpus)" using g by (simp add: valid_graph_def)
  have n0: "?n \<noteq> 0" using p by (cases corpus) auto
  have D: "fromkeys (keys corpus) ((1 - d) / ?n) = ?D" by (rule fromkeys_distinct[OF dk])
  have kD: "map fst ?D = keys corpus" by (simp add: comp_def)
  have imgD: "fst ` set ?D = set (keys corpus)" using kD by (metis list.set_map)
  show ?thesis
  proof (cases "links = {||}")
    case True
    have "for_each (\<lambda>key. add_item key (d / ?n)) (keys ?D) ?D =
          Inr (map (\<lambda>(k, v). (k, if k \<in> set (keys ?D) then v + d / ?n else v)) ?D)"
      using dk by (intro for_each_add_item) (simp_all add: keys_def comp_def image_image)
    moreover have "(\<lambda>key dist. bind (true_div d ?n) (\<lambda>share. add_item key share dist)) =
          (\<lambda>key. add_item key (d / ?n))"
      using n0 by (simp add: true_div_def bind_def)
    ultimately show ?thesis
      using True n0 p
      by (simp add: transition_model_def true_div_def bind_def getitem_def D[unfolded keys_def]
          keys_def comp_def Let_def)
  next
    case False
    then have c0: "real (fcard links) \<noteq> 0" by simp
    have "for_each (\<lambda>k. add_item k (d / real (fcard links))) (enum links) ?D =
          Inr (map (\<lambda>(k, v). (k, if k \<in> set (enum links) then v + d / real (fcard links) else v)) ?D)"
      using dk e valid_graph_links[OF g p]
      by (intro for_each_add_item) (simp_all add: comp_def image_image valid_enum_def)
    moreover have "set (enum links) = fset links" using e by (simp add: valid_enum_def)
    ultimately show ?thesis
      using False n0 c0 p
      by (simp add: transition_model_def true_div_def bind_def getitem_def D[unfolded keys_def]
          keys_def comp_def Let_def)
  qed
qed

lemma getitem_tabulate:
  "k \<in> set ks \<Longrightarrow> getitem (map (\<lambda>k. (k, f k)) ks) k = Inr (f k)"
  by (induction ks) (auto simp: getitem_def)

lemma keys_tabulate: "keys (map (\<lambda>k. (k, f k)) ks) = ks"
  by (simp add: keys_def comp_def)

lemma key_of_lookup: "map_of corpus p = Some links \<Longrightarrow> p \<in> set (keys corpus)"
  by (auto simp: keys_def dest: map_of_SomeD intro: rev_image_eqI)

lemma sum_link_share:
  fixes c :: real
  assumes "distinct ks" "fset links \<subseteq> set ks" "links \<noteq> {||}"
  shows "(\<Sum>k\<leftarrow>ks. if k |\<in>| links then c / real (fcard links) else 0) = c"
proof -
  have "(\<Sum>k\<leftarrow>ks. if k |\<in>| links then c / real (fcard links) else 0) =
        (\<Sum>k\<in>set ks. if k \<in> fset links then c / real (fcard links) else 0)"
    using assms(1) by (simp add: sum_list_distinct_conv_sum_set)
  also have "\<dots> = (\<Sum>k\<in>set ks \<inter> fset links. c / real (fcard links))"
    by (rule sum.inter_restrict[symmetric]) simp
  also have "set ks \<inter> fset links = fset links" using assms(2) by auto
  also have "(\<Sum>k\<in>fset links. c / real (fcard links)) = c"
    using assms(3) by (auto simp: fcard.rep_eq simp flip: bot_fset.rep_eq fset_inject)
  finally show ?thesis .
qed

lemma transition_model_sum:
  assumes g: "valid_graph corpus" and p: "map_of corpus p = Some links"
  shows "(\<Sum>k\<leftarrow>keys corpus. (1 - d) / real (length corpus) +
            (if links = {||} then d / real (length corpus)
             else if k |\<in>| links then d / real (fcard links) else 0)) = 1"
proof -
  let ?n = "real (length corpus)"
  have n0: "?n \<noteq> 0" using p by (cases corpus) auto
  have len: "length (keys corpus) = length corpus" by (simp add: keys_def)
  have dk: "distinct (keys corpus)" using g by (simp add: valid_graph_def)
  have jump: "(\<Sum>k\<leftarrow>keys corpus. (1 - d) / ?n) = 1 - d"
    using n0 by (simp add: sum_list_triv len)
  show ?thesis
  proof (cases "links = {||}")
    case True
    have "(\<Sum>k\<leftarrow>keys corpus. d / ?n) = d" using n0 by (simp add: sum_list_triv len)
    with jump True show ?thesis by (simp add: sum_list_addf)
  next
    case False
    have "(\<Sum>k\<leftarrow>keys corpus. if k |\<in>| links then d / real (fcard links) else 0) = d"
      by (rule sum_link_share[OF dk valid_graph_links[OF g p] False])
    with jump False show ?thesis by (simp add: sum_list_addf)
  qed
qed

text \<open>
  Claim C2. For a graph with at least one page, a page \<open>p\<close> that is a key of the graph with
  outbound set \<open>links\<close>, and a damping factor \<open>d\<close> in (0,1), \<open>transition_model\<close> returns
  a distribution over exactly the pages of the graph. Every page gets \<open>(1 - d) / N\<close>; when
  \<open>p\<close> has links, each linked page gets \<open>d / L\<close> more and the others nothing more; when
  \<open>p\<close> is dangling, every page gets \<open>d / N\<close> more.
\<close>

theorem transition_model_distribution:
  assumes "valid_graph corpus" and "valid_enum enum"
    and "map_of corpus p = Some links" and "0 < d" and "d < 1"
  shows "1 \<le> length corpus \<and>
    (\<exists>dist. transition_model enum corpus p d = Inr dist \<and> keys dist = keys corpus \<and>
      (\<forall>k\<in>set (keys corpus). getitem dist k =
         Inr ((1 - d) / real (length corpus) +
              (if links \<noteq> {||}
               then (if k |\<in>| links then d / real (fcard links) else 0)
               else d / real (length corpus)))))"
proof -
  have "1 \<le> length corpus" using assms(3) by (cases corpus) auto
  then show ?thesis
    by (simp add: transition_model_closed[OF assms(1-3)] keys_tabulate getitem_tabulate)
qed

text \<open>
  Claim C7. For a valid graph, a page \<open>p\<close> that is a key of it and a damping factor in
  (0,1), the values of the distribution returned by \<open>transition_model\<close> sum to 1 in exact
  arithmetic, whether \<open>p\<close> has links or is dangling.
\<close>

theorem transition_model_sums_to_one:
  assumes "valid_graph corpus" and "valid_enum enum"
    and "map_of corpus p = Some links" and "0 < d" and "d < 1"
  shows "\<exists>dist. transition_model enum corpus p d = Inr dist \<and> sum_list (dict_values dist) = 1"
  using transition_model_sum[OF assms(1,3), of d]
  by (simp add: transition_model_closed[OF assms(1-3)] dict_values_def comp_def)

text \<open>
  Claim C10. For a graph with at least one page, a page \<open>p\<close> of the graph and
  \<open>0 < d < 1\<close>, \<open>transition_model\<close> returns a distribution over exactly the pages of the
  graph in which every page has a value, and that value is at least \<open>(1 - d) / N\<close> and hence
  strictly positive, in both branches: no page gets probability zero.
\<close>

theorem transition_model_positive:
  assumes "valid_graph corpus" and "valid_enum enum"
    and "map_of corpus p = Some links" and "0 < d" and "d < 1"
  shows "1 \<le> length corpus \<and>
    (\<exists>dist. transition_model enum corpus p d = Inr dist \<and>
      keys dist = keys corpus \<and>
      (\<forall>k\<in>set (keys corpus). \<exists>v. getitem dist k = Inr v \<and>
         (1 - d) / real (length corpus) \<le> v \<and> 0 < v) \<and>
      (\<forall>v\<in>set (dict_values dist). (1 - d) / real (length corpus) \<le> v \<and> 0 < v))"
proof -
  let ?jump = "(1 - d) / real (length corpus)"
  let ?extra = "\<lambda>k. if links = {||} then d / real (length corpus)
             else if k |\<in>| links then d / real (fcard links) else 0"
  let ?dist = "map (\<lambda>k. (k, ?jump + ?extra k)) (keys corpus)"
  have n: "1 \<le> length corpus" using assms(3) by (cases corpus) auto
  then have "0 < real (length corpus)" by (cases corpus) simp_all
  then have pos: "0 < ?jump" using assms(5) by (intro divide_pos_pos) simp_all
  have extra: "0 \<le> ?extra k" for k using assms(4) by simp
  have bound: "?jump \<le> ?jump + ?extra k \<and> 0 < ?jump + ?extra k" for k
    using pos extra[of k] by linarith
  have ret: "transition_model enum corpus p d = Inr ?dist"
    by (rule transition_model_closed[OF assms(1-3)])
  have ks: "keys ?dist = keys corpus" by (rule keys_tabulate)
  have pages: "\<forall>k\<in>set (keys corpus). \<exists>v. getitem ?dist k = Inr v \<and> ?jump \<le> v \<and> 0 < v"
  proof
    fix k assume "k \<in> set (keys corpus)"
    then have "getitem ?dist k = Inr (?jump + ?extra k)" by (rule getitem_tabulate)
    with bound[of k] show "\<exists>v. getitem ?dist k = Inr v \<and> ?jump \<le> v \<and> 0 < v" by blast
  qed
  have "\<forall>v\<in>set (map (\<lambda>k. ?jump + ?extra k) (keys corpus)). ?jump \<le> v \<and> 0 < v"
    unfolding set_map using bound by blast
  then have vals: "\<forall>v\<in>set (dict_values ?dist). ?jump \<le> v \<and> 0 < v"
    by (simp add: dict_values_def comp_def)
  show ?thesis using n ret ks pages vals by blast
qed

lemma valid_example_corpus: "valid_graph example_corpus"
  by (simp add: valid_graph_def example_corpus_def keys_def)

lemma valid_dangling_corpus: "valid_graph dangling_corpus"
  by (simp add: valid_graph_def dangling_corpus_def keys_def)

lemma valid_enum_sorted: "valid_enum name_order"
  by (simp add: valid_enum_def sorted_list_of_fset.rep_eq)

text \<open>The hypotheses of C2 hold for page \<open>2.html\<close> of the three-page example.\<close>

theorem transition_model_distribution_witness:
  "valid_graph example_corpus \<and> valid_enum name_order \<and>
   map_of example_corpus ''2.html'' = Some {|''1.html'', ''3.html''|} \<and>
   (0::real) < 85 / 100 \<and> (85 / 100 :: real) < 1 \<and>
   1 \<le> length example_corpus \<and>
   (\<exists>dist. transition_model name_order example_corpus ''2.html'' (85 / 100) = Inr dist \<and>
      keys dist = keys example_corpus \<and>
      (\<forall>k\<in>set (keys example_corpus). getitem dist k =
         Inr ((1 - 85 / 100) / real (length example_corpus) +
              (if {|''1.html'', ''3.html''|} \<noteq> {||}
               then (if k |\<in>| {|''1.html'', ''3.html''|}
                     then (85 / 100) / real (fcard {|''1.html'', ''3.html''|}) else 0)
               else (85 / 100) / real (length example_corpus)))))"
proof -
  have p: "map_of example_corpus ''2.html'' = Some {|''1.html'', ''3.html''|}"
    by (simp add: example_corpus_def)
  have d: "(0::real) < 85 / 100" "(85 / 100 :: real) < 1" by simp_all
  show ?thesis
    using valid_example_corpus valid_enum_sorted p d
      transition_model_distribution[OF valid_example_corpus valid_enum_sorted p d]
    by blast
qed

text \<open>The hypotheses of C7 hold for the dangling page \<open>A\<close> of the two-page example.\<close>

theorem transition_model_sums_to_one_witness:
  "valid_graph dangling_corpus \<and> valid_enum name_order \<and>
   map_of dangling_corpus ''A'' = Some {||} \<and>
   (0::real) < 85 / 100 \<and> (85 / 100 :: real) < 1 \<and>
   (\<exists>dist. transition_model name_order dangling_corpus ''A'' (85 / 100) = Inr dist \<and>
      sum_list (dict_values dist) = 1)"
proof -
  have p: "map_of dangling_corpus ''A'' = Some {||}"
    by (simp add: dangling_corpus_def)
  have d: "(0::real) < 85 / 100" "(85 / 100 :: real) < 1" by simp_all
  show ?thesis
    using valid_dangling_corpus valid_enum_sorted p d
      transition_model_sums_to_one[OF valid_dangling_corpus valid_enum_sorted p d]
    by blast
qed

text \<open>The hypotheses of C10 hold for page \<open>1.html\<close> of the three-page example.\<close>

theorem transition_model_positive_witness:
  "valid_graph example_corpus \<and> valid_enum name_order \<and>
   map_of example_corpus ''1.html'' = Some {|''2.html''|} \<and>
   (0::real) < 85 / 100 \<and> (85 / 100 :: real) < 1 \<and>
   1 \<le> length example_corpus \<and>
   (\<exists>dist. transition_model name_order example_corpus ''1.html'' (85 / 100) = Inr dist \<and>
      keys dist = keys example_corpus \<and>
      (\<forall>k\<in>set (keys example_corpus). \<exists>v. getitem dist k = Inr v \<and>
         (1 - 85 / 100) / real (length example_corpus) \<le> v \<and> 0 < v) \<and>
      (\<forall>v\<in>set (dict_values dist). (1 - 85 / 100) / real (length example_corpus) \<le> v \<and> 0 < v))"
proof -
  have p: "map_of example_corpus ''1.html'' = Some {|''2.html''|}"
    by (simp add: example_corpus_def)
  have d: "(0::real) < 85 / 100" "(85 / 100 :: real) < 1" by simp_all
  show ?thesis
    using valid_example_corpus valid_enum_sorted p d
      transition_model_positive[OF valid_example_corpus valid_enum_sorted p d]
    by blast
qed

lemma transition_model_missing_page:
  assumes "p \<notin> set (keys corpus)"
  shows "transition_model enum corpus p d =
           Inl (if corpus = [] then ZeroDivisionError else KeyError)"
proof -
  have "map_of corpus p = None"
    using assms by (simp add: keys_def map_of_eq_None_iff)
  then show ?thesis
    by (simp add: transition_model_def true_div_def bind_def getitem_def Let_def)
qed

text \<open>
  Claim C5 as stated fails: a damping factor outside (0,1) is not rejected. With
  \<open>d = 2\<close> the function returns a vector with a negative entry.
\<close>

theorem transition_model_damping_unchecked:
  "\<not> ((0::real) < 2 \<and> (2::real) < 1) \<and>
   transition_model name_order [(''a'', {|''b''|}), (''b'', {|''a''|})] ''a'' 2 =
     Inr [(''a'', - 1 / 2), (''b'', 3 / 2)]"
proof -
  have "transition_model name_order [(''a'', {|''b''|}), (''b'', {|''a''|})] ''a'' 2 =
     Inr [(''a'', - 1 / 2), (''b'', 3 / 2)]"
    by code_simp
  then show ?thesis by simp
qed

text \<open>
  Claim C5, amended. Calling \<open>transition_model\<close> with a page that is not a key of the graph
  raises an error instead of returning a distribution (\<open>KeyError\<close>, or
  \<open>ZeroDivisionError\<close> when the graph is empty). The damping factor is not checked:
  for a valid graph and a page \<open>q\<close> of it with outbound set \<open>links\<close>, every real \<open>d'\<close>,
  inside (0,1) or not, is used as given: every page gets \<open>(1 - d') / N\<close>, plus \<open>d' / L\<close>
  for the pages \<open>q\<close> links to, or plus \<open>d' / N\<close> for every page when \<open>q\<close> is dangling.
\<close>

theorem transition_model_input_contract:
  "(p \<notin> set (keys corpus) \<longrightarrow>
      transition_model enum corpus p d =
        Inl (if corpus = [] then ZeroDivisionError else KeyError)) \<and>
   (valid_graph corpus \<and> valid_enum enum \<and> map_of corpus q = Some links \<longrightarrow>
      (\<exists>dist. transition_model enum corpus q d' = Inr dist \<and> keys dist = keys corpus \<and>
         dist = map (\<lambda>k. (k, (1 - d') / real (length corpus) +
                  (if links \<noteq> {||}
                   then (if k |\<in>| links then d' / real (fcard links) else 0)
                   else d' / real (length corpus)))) (keys corpus) \<and>
         (\<forall>k\<in>set (keys corpus). getitem dist k =
            Inr ((1 - d') / real (length corpus) +
                 (if links \<noteq> {||}
                  then (if k |\<in>| links then d' / real (fcard links) else 0)
                  else d' / real (length corpus))))))"
proof (intro conjI impI)
  assume "p \<notin> set (keys corpus)"
  then show "transition_model enum corpus p d =
        Inl (if corpus = [] then ZeroDivisionError else KeyError)"
    by (rule transition_model_missing_page)
next
  assume a: "valid_graph corpus \<and> valid_enum enum \<and> map_of corpus q = Some links"
  let ?f = "\<lambda>k. (1 - d') / real (length corpus) +
                  (if links \<noteq> {||}
                   then (if k |\<in>| links then d' / real (fcard links) else 0)
                   else d' / real (length corpus))"
  have "transition_model enum corpus q d' = Inr (map (\<lambda>k. (k, ?f k)) (keys corpus))"
    using a by (simp add: transition_model_closed)
  moreover have "keys (map (\<lambda>k. (k, ?f k)) (keys corpus)) = keys corpus"
    by (rule keys_tabulate)
  moreover have "\<forall>k\<in>set (keys corpus). getitem (map (\<lambda>k. (k, ?f k)) (keys corpus)) k = Inr (?f k)"
    by (simp add: getitem_tabulate)
  ultimately show "\<exists>dist. transition_model enum corpus q d' = Inr dist \<and> keys dist = keys corpus \<and>
         dist = map (\<lambda>k. (k, ?f k)) (keys corpus) \<and>
         (\<forall>k\<in>set (keys corpus). getitem dist k = Inr (?f k))"
    by blast
qed

text \<open>
  Both halves of the amended C5 at the three-page example: a page outside the graph, and
  page \<open>1.html\<close> with the damping factor \<open>-3\<close>.
\<close>

theorem transition_model_input_contract_witness:
  "''4.html'' \<notin> set (keys example_corpus) \<and>
   transition_model name_order example_corpus ''4.html'' (85 / 100) = Inl KeyError \<and>
   valid_graph example_corpus \<and> valid_enum name_order \<and>
   map_of example_corpus ''1.html'' = Some {|''2.html''|} \<and>
   transition_model name_order example_corpus ''1.html'' (- 3) =
     Inr [(''1.html'', 4 / 3), (''2.html'', - 5 / 3), (''3.html'', 4 / 3)]"
proof -
  have p: "''4.html'' \<notin> set (keys example_corpus)"
    and q: "map_of example_corpus ''1.html'' = Some {|''2.html''|}"
    and ne: "example_corpus \<noteq> []"
    by (simp_all add: example_corpus_def keys_def)
  have both: "(transition_model name_order example_corpus ''4.html'' (85 / 100) =
        Inl (if example_corpus = [] then ZeroDivisionError else KeyError)) \<and>
      (\<exists>dist. transition_model name_order example_corpus ''1.html'' (- 3) = Inr dist \<and>
         dist = map (\<lambda>k. (k, (1 - (- 3)) / real (length example_corpus) +
                  (if {|''2.html''|} \<noteq> {||}
                   then (if k |\<in>| {|''2.html''|} then (- 3) / real (fcard {|''2.html''|}) else 0)
                   else (- 3) / real (length example_corpus)))) (keys example_corpus))"
    using p q valid_example_corpus valid_enum_sorted
      transition_model_input_contract[of "''4.html''" example_corpus name_order
        "85 / 100" "''1.html''" "{|''2.html''|}" "- 3"]
    by blast
  then have "transition_model name_order example_corpus ''4.html'' (85 / 100) = Inl KeyError"
    using ne by simp
  moreover have "transition_model name_order example_corpus ''1.html'' (- 3) =
     Inr [(''1.html'', 4 / 3), (''2.html'', - 5 / 3), (''3.html'', 4 / 3)]"
    using both by (auto simp: example_corpus_def keys_def fcard_finsert_if fcard_fempty)
  ultimately show ?thesis
    using p q valid_example_corpus valid_enum_sorted by blast
qed

subsection \<open>The corpus loader\<close>

lemma extract_page_simp:
  "extract_page findall (filename, contents) pages =
     (if suffix ''.html'' filename
      then setitem pages filename (fset_of_list (findall contents) |-| {|filename|})
      else pages)"
  by (simp add: extract_page_def)

lemma set_update_subset: "set (AList.update k v al) \<subseteq> insert (k, v) (set al)"
  by (induction al) auto

lemma extract_page_inv:
  assumes "distinct (map fst acc)" "\<forall>(k, v)\<in>set acc. k |\<notin>| v"
  shows "distinct (map fst (extract_page findall entry acc)) \<and>
         (\<forall>(k, v)\<in>set (extract_page findall entry acc). k |\<notin>| v)"
proof -
  obtain filename contents where entry: "entry = (filename, contents)" by (cases entry)
  let ?v = "fset_of_list (findall contents) |-| {|filename|}"
  have "\<forall>(k, v)\<in>insert (filename, ?v) (set acc). k |\<notin>| v"
    using assms(2) by auto
  then have "\<forall>(k, v)\<in>set (AList.update filename ?v acc). k |\<notin>| v"
    using set_update_subset[of filename ?v acc] by blast
  then show ?thesis
    using assms by (simp add: entry extract_page_simp setitem_def distinct_update)
qed

lemma extract_links_fold_inv:
  "distinct (map fst acc) \<Longrightarrow> \<forall>(k, v)\<in>set acc. k |\<notin>| v \<Longrightarrow>
   distinct (map fst (fold (extract_page findall) directory acc)) \<and>
   (\<forall>(k, v)\<in>set (fold (extract_page findall) directory acc). k |\<notin>| v)"
proof (induction directory arbitrary: acc)
  case Nil
  then show ?case by simp
next
  case (Cons entry directory)
  have "distinct (map fst (extract_page findall entry acc)) \<and>
        (\<forall>(k, v)\<in>set (extract_page findall entry acc). k |\<notin>| v)"
    by (rule extract_page_inv[OF Cons.prems])
  then show ?case using Cons.IH[of "extract_page findall entry acc"] by simp
qed

lemma extract_links_inv:
  "distinct (keys (extract_links findall directory)) \<and>
   (\<forall>(k, v)\<in>set (extract_links findall directory). k |\<notin>| v)"
  using extract_links_fold_inv[of "[]" findall directory]
  by (simp add: extract_links_def keys_def)

lemma extract_page_other:
  "filename \<noteq> fst entry \<Longrightarrow>
   map_of (extract_page findall entry acc) filename = map_of acc filename"
  by (cases entry) (simp add: extract_page_simp setitem_def update_conv')

lemma extract_links_fold_other:
  "filename \<notin> fst ` set directory \<Longrightarrow>
   map_of (fold (extract_page findall) directory acc) filename = map_of acc filename"
proof (induction directory arbitrary: acc)
  case Nil
  then show ?case by simp
next
  case (Cons entry directory)
  then have "filename \<noteq> fst entry" "filename \<notin> fst ` set directory" by auto
  then show ?case using Cons.IH by (simp add: extract_page_other)
qed

lemma extract_links_fold_lookup:
  "distinct (map fst directory) \<Longrightarrow> (filename, contents) \<in> set directory \<Longrightarrow>
   suffix ''.html'' filename \<Longrightarrow>
   map_of (fold (extract_page findall) directory acc) filename
     = Some (fset_of_list (findall contents) |-| {|filename|})"
proof (induction directory arbitrary: acc)
  case Nil
  then show ?case by simp
next
  case (Cons entry directory)
  show ?case
  proof (cases "entry = (filename, contents)")
    case True
    then have "filename \<notin> fst ` set directory" using Cons.prems(1) by auto
    then have "map_of (fold (extract_page findall) directory (extract_page findall entry acc)) filename =
        map_of (extract_page findall entry acc) filename"
      by (rule extract_links_fold_other)
    then show ?thesis
      using True Cons.prems(3) by (simp add: extract_page_simp setitem_def update_conv')
  next
    case False
    then have "(filename, contents) \<in> set directory" using Cons.prems(2) by auto
    moreover have "distinct (map fst directory)" using Cons.prems(1) by simp
    ultimately show ?thesis using Cons.IH Cons.prems(3) by simp
  qed
qed

lemma crawl_closed:
  "crawl findall directory =
     Inr (map (\<lambda>(k, v). (k, ffilter (\<lambda>link. link \<in> set (keys (extract_links findall directory))) v))
            (extract_links findall directory))"
proof -
  let ?pages = "extract_links findall directory"
  have d: "distinct (map fst ?pages)"
    using extract_links_inv[of findall directory] by (simp add: keys_def)
  have "for_each (\<lambda>k d. bind (getitem d k) (\<lambda>v. Inr (setitem d k
            (ffilter (\<lambda>link. link \<in> set (keys d)) v)))) (keys ?pages) ?pages =
        Inr (map (\<lambda>(k, v). (k, if k \<in> set (keys ?pages)
            then ffilter (\<lambda>link. link \<in> set (keys ?pages)) v else v)) ?pages)"
    using d by (intro for_each_modify[where F = "\<lambda>ks v. ffilter (\<lambda>link. link \<in> set ks) v"])
      (simp_all add: keys_def)
  moreover have "map (\<lambda>(k, v). (k, if k \<in> set (keys ?pages)
            then ffilter (\<lambda>link. link \<in> set (keys ?pages)) v else v)) ?pages =
        map (\<lambda>(k, v). (k, ffilter (\<lambda>link. link \<in> set (keys ?pages)) v)) ?pages"
  proof (rule map_cong[OF refl])
    fix e assume e: "e \<in> set ?pages"
    then have "fst e \<in> set (keys ?pages)" by (simp add: keys_def)
    then show "(case e of (k, v) \<Rightarrow> (k, if k \<in> set (keys ?pages)
            then ffilter (\<lambda>link. link \<in> set (keys ?pages)) v else v)) =
        (case e of (k, v) \<Rightarrow> (k, ffilter (\<lambda>link. link \<in> set (keys ?pages)) v))"
      by (simp add: case_prod_unfold)
  qed
  ultimately show ?thesis by (simp only: crawl_def Let_def)
qed

lemma crawl_self_link:
  assumes "distinct (map fst directory)" "(filename, contents) \<in> set directory"
    "suffix ''.html'' filename" "set (findall contents) = {filename}"
  shows "map_of (extract_links findall directory) filename = Some {||}"
proof -
  have "fset_of_list (findall contents) = {|filename|}"
    using assms(4) by (simp add: fset_eq_iff fset_of_list.rep_eq)
  then have "fset_of_list (findall contents) |-| {|filename|} = {||}" by simp
  then show ?thesis
    using extract_links_fold_lookup[OF assms(1-3), of findall "[]"]
    by (simp add: extract_links_def)
qed

text \<open>
  Claim C8. The graph returned by \<open>crawl\<close> has, for every key \<open>k\<close>, an outbound set that
  is a subset of the key set and does not contain \<open>k\<close>. In particular a page whose only
  extracted link target is itself ends up with the empty outbound set.
\<close>

theorem crawl_link_graph:
  "\<exists>pages. crawl findall directory = Inr pages \<and> valid_graph pages \<and>
     (\<forall>filename contents.
        distinct (map fst directory) \<and> (filename, contents) \<in> set directory \<and>
        suffix ''.html'' filename \<and> set (findall contents) = {filename}
        \<longrightarrow> getitem pages filename = Inr {||})"
proof -
  let ?raw = "extract_links findall directory"
  let ?keep = "ffilter (\<lambda>link. link \<in> set (keys ?raw))"
  let ?pages = "map (\<lambda>(k, v). (k, ?keep v)) ?raw"
  have ret: "crawl findall directory = Inr ?pages" by (rule crawl_closed)
  have ks: "keys ?pages = keys ?raw" by (simp add: keys_def case_prod_unfold comp_def)
  have dist: "distinct (keys ?pages)"
    using extract_links_inv[of findall directory] by (simp only: ks)
  have noself: "\<forall>(k, v)\<in>set ?raw. k |\<notin>| v"
    using extract_links_inv[of findall directory] by blast
  have "\<forall>(k, links)\<in>set ?pages. links |\<subseteq>| fset_of_list (keys ?pages) \<and> k |\<notin>| links"
  proof (clarify, intro conjI)
    fix k links assume "(k, links) \<in> set ?pages"
    then obtain v where v: "(k, v) \<in> set ?raw" and links: "links = ?keep v" by auto
    show "links |\<subseteq>| fset_of_list (keys ?pages)"
      unfolding ks links by (auto simp: fset_of_list.rep_eq)
    show "k |\<notin>| links" using noself v links by auto
  qed
  then have valid: "valid_graph ?pages"
    using dist by (simp add: valid_graph_def list_all_iff)
  have self: "getitem ?pages filename = Inr {||}"
    if "distinct (map fst directory) \<and> (filename, contents) \<in> set directory \<and>
        suffix ''.html'' filename \<and> set (findall contents) = {filename}"
    for filename contents
  proof -
    have "map_of ?raw filename = Some {||}" using that by (intro crawl_self_link) auto
    then show ?thesis by (auto simp: getitem_def map_of_map)
  qed
  show ?thesis using ret valid self by blast
qed

text \<open>
  A directory of two pages and one other file: \<open>a.html\<close> links only to itself,
  \<open>b.html\<close> links to \<open>a.html\<close> and to a page outside the corpus.
\<close>

theorem crawl_link_graph_witness:
  "distinct (map fst example_directory) \<and>
   (''a.html'', ''<a href=\"a.html\">self</a>'') \<in> set example_directory \<and>
   suffix ''.html'' ''a.html'' \<and>
   set (example_findall ''<a href=\"a.html\">self</a>'') = {''a.html''} \<and>
   (\<exists>pages. crawl example_findall example_directory = Inr pages \<and> valid_graph pages \<and>
      getitem pages ''a.html'' = Inr {||})"
proof -
  have h: "distinct (map fst example_directory) \<and>
      (''a.html'', ''<a href=\"a.html\">self</a>'') \<in> set example_directory \<and>
      suffix ''.html'' ''a.html'' \<and>
      set (example_findall ''<a href=\"a.html\">self</a>'') = {''a.html''}"
    by (simp add: example_directory_def example_findall_def suffix_def)
  show ?thesis
    using h crawl_link_graph[of example_findall example_directory] by blast
qed

subsection \<open>The sampling estimator\<close>

lemma transition_model_enum_irrelevant:
  assumes "valid_graph corpus" "valid_enum enum1" "valid_enum enum2"
  shows "transition_model enum1 corpus p d = transition_model enum2 corpus p d"
proof (cases "p \<in> set (keys corpus)")
  case False
  then show ?thesis by (simp add: transition_model_missing_page)
next
  case True
  then have "map_of corpus p \<noteq> None" by (simp add: keys_def map_of_eq_None_iff)
  then obtain links where "map_of corpus p = Some links" by auto
  then show ?thesis using assms by (simp add: transition_model_closed)
qed

lemma sample_step_enum_irrelevant:
  assumes "valid_graph corpus" "valid_enum enum1" "valid_enum enum2"
  shows "sample_step rs enum1 corpus d = sample_step rs enum2 corpus d"
  by (simp add: sample_step_def transition_model_enum_irrelevant[OF assms])

text \<open>
  Claim C9. With the same graph, damping factor, sample count and state of the random
  source, two runs of \<open>sample_pagerank\<close> give the same rank vector (and leave the source
  in the same state), whatever order the two runs iterate the sets of links in: the
  random source is the only input of the walk besides its arguments.
\<close>

theorem sample_pagerank_deterministic:
  assumes "valid_graph corpus" and "valid_enum enum1" and "valid_enum enum2"
  shows "sample_pagerank rs enum1 corpus d n g = sample_pagerank rs enum2 corpus d n g"
  by (simp add: sample_pagerank_def sample_walk_def sample_step_enum_irrelevant[OF assms])

lemma valid_enum_reversed: "valid_enum (\<lambda>s. rev (name_order s))"
  by (simp add: valid_enum_def sorted_list_of_fset.rep_eq)

text \<open>Two runs on the three-page example, one of them iterating every set backwards.\<close>

theorem sample_pagerank_deterministic_witness:
  "valid_graph example_corpus \<and> valid_enum name_order \<and>
   valid_enum (\<lambda>s. rev (name_order s)) \<and>
   sample_pagerank lcg_source name_order example_corpus (85 / 100) 5 (1::nat) =
   sample_pagerank lcg_source (\<lambda>s. rev (name_order s)) example_corpus (85 / 100) 5 1"
  using valid_example_corpus valid_enum_sorted valid_enum_reversed
    sample_pagerank_deterministic[OF valid_example_corpus valid_enum_sorted valid_enum_reversed,
      of lcg_source "85 / 100" 5 "1::nat"]
  by blast

lemma length_accumulate_from: "length (accumulate_from acc ws) = length ws"
  by (induction ws arbitrary: acc) auto

lemma last_accumulate_from: "ws \<noteq> [] \<Longrightarrow> last (accumulate_from acc ws) = acc + sum_list ws"
proof (induction ws arbitrary: acc)
  case Nil
  then show ?case by simp
next
  case (Cons w ws)
  show ?case
  proof (cases ws)
    case Nil
    then show ?thesis by simp
  next
    case (Cons v vs)
    then have "accumulate_from (acc + w) ws \<noteq> []" by simp
    moreover have "last (accumulate_from (acc + w) ws) = acc + w + sum_list ws"
      using Cons Cons.IH by simp
    ultimately show ?thesis by simp
  qed
qed

lemma random_ok_lcg: "random_ok lcg_source"
proof -
  have choices: "\<exists>x g'. random_choices lcg_source g xs ws = Inr (x, g') \<and> x \<in> set xs"
    if "xs \<noteq> []" "length ws = length xs" "0 < sum_list ws" for g and xs :: "'a list" and ws
  proof -
    have ws: "ws \<noteq> []" using that by auto
    have ne: "accumulate_from 0 ws \<noteq> []"
      using ws length_accumulate_from[of 0 ws] by (metis length_0_conv)
    have "min (length (takeWhile P (accumulate_from 0 ws))) (length xs - Suc 0) < length xs"
      for P using that(1) by (cases xs) auto
    then have "xs ! min (length (takeWhile P (accumulate_from 0 ws))) (length xs - Suc 0) \<in> set xs"
      for P by (intro nth_mem)
    then show ?thesis
      using that ws ne
      by (simp add: lcg_source_def Let_def length_accumulate_from last_accumulate_from)
  qed
  have choice: "\<exists>x g'. random_choice lcg_source g xs = Inr (x, g') \<and> x \<in> set xs"
    if "xs \<noteq> []" for g and xs :: "'a list"
    using that by (simp add: lcg_source_def Let_def)
  show ?thesis unfolding random_ok_def using choice choices by blast
qed

lemma sum_bump:
  fixes pr :: "('k \<times> int) list"
  shows "distinct (map fst pr) \<Longrightarrow> s \<in> fst ` set pr \<Longrightarrow>
   sum_list (map snd (map (\<lambda>(k, c). (k, if k = s then c + 1 else c)) pr)) =
   sum_list (map snd pr) + 1"
proof (induction pr)
  case Nil
  then show ?case by simp
next
  case (Cons a pr)
  obtain k c where a: "a = (k, c)" by (cases a)
  show ?case
  proof (cases "k = s")
    case True
    then have "s \<notin> fst ` set pr" using Cons.prems(1) a by auto
    then have "map (\<lambda>(k, c). (k, if k = s then c + 1 else c)) pr = pr"
      by (induction pr) auto
    with True a show ?thesis by simp
  next
    case False
    with Cons a show ?thesis by auto
  qed
qed

lemma sample_step_closed:
  assumes g: "valid_graph corpus" and e: "valid_enum enum" and r: "random_ok rs"
    and k: "keys pr = keys corpus" and s: "s \<in> set (keys corpus)"
  shows "\<exists>s' g'. sample_step rs enum corpus d (pr, s, g0) =
           Inr (map (\<lambda>(k, c). (k, if k = s then c + 1 else c)) pr, s', g') \<and>
         s' \<in> set (keys corpus)"
proof -
  let ?pr' = "map (\<lambda>(k, c). (k, if k = s then c + 1 else c)) pr"
  have dk: "distinct (map fst pr)" using g k by (simp add: valid_graph_def keys_def)
  have "s \<in> fst ` set pr" using s k by (simp add: keys_def) (metis list.set_map)
  then have bump: "add_item s 1 pr = Inr ?pr'"
    unfolding add_item_def using dk by (intro modify_item_distinct)
  have "map_of corpus s \<noteq> None" using s by (simp add: keys_def map_of_eq_None_iff)
  then obtain links where links: "map_of corpus s = Some links" by auto
  let ?dist = "map (\<lambda>k. (k, (1 - d) / real (length corpus) +
            (if links = {||} then d / real (length corpus)
             else if k |\<in>| links then d / real (fcard links) else 0))) (keys corpus)"
  have tm: "transition_model enum corpus s d = Inr ?dist"
    by (rule transition_model_closed[OF g e links])
  have kd: "keys ?dist = keys corpus" by (rule keys_tabulate)
  have ne: "keys ?dist \<noteq> []" using s kd by auto
  have len: "length (dict_values ?dist) = length (keys ?dist)" by (simp add: dict_values_def keys_def)
  have "sum_list (dict_values ?dist) = 1"
    using transition_model_sum[OF g links, of d] by (simp add: dict_values_def comp_def)
  then have pos: "0 < sum_list (dict_values ?dist)" by simp
  obtain s' g' where draw: "random_choices rs g0 (keys ?dist) (dict_values ?dist) = Inr (s', g')"
    and mem: "s' \<in> set (keys ?dist)"
    using r ne len pos unfolding random_ok_def by blast
  have "sample_step rs enum corpus d (pr, s, g0) = Inr (?pr', s', g')"
    by (simp add: sample_step_def bump tm draw bind_def)
  then show ?thesis using mem kd by auto
qed

lemma bind_assoc: "bind (bind m f) h = bind m (\<lambda>x. bind (f x) h)"
  by (cases m) (simp_all add: bind_def)

lemma repeat_Suc_right: "repeat (Suc k) body s = bind (repeat k body s) body"
proof (induction k arbitrary: s)
  case 0
  show ?case by (cases "body s") (simp_all add: bind_def)
next
  case (Suc k)
  have ih: "repeat (Suc k) body = (\<lambda>s'. bind (repeat k body s') body)"
    by (rule ext) (rule Suc.IH)
  have "repeat (Suc (Suc k)) body s = bind (body s) (repeat (Suc k) body)" by simp
  also have "\<dots> = bind (body s) (\<lambda>s'. bind (repeat k body s') body)"
    by (simp only: ih)
  also have "\<dots> = bind (bind (body s) (repeat k body)) body" by (simp only: bind_assoc)
  finally show ?case by simp
qed

lemma keys_bump: "keys (map (\<lambda>(k, c). (k, if k = s then c + 1 else c)) pr) = keys pr"
  by (simp add: keys_def case_prod_unfold comp_def)

lemma repeat_sample_step:
  assumes g: "valid_graph corpus" and e: "valid_enum enum" and r: "random_ok rs"
  shows "keys pr = keys corpus \<Longrightarrow> s \<in> set (keys corpus) \<Longrightarrow>
    \<forall>c\<in>set (dict_values pr). 0 \<le> c \<Longrightarrow>
    \<exists>pr' s' g'. repeat m (sample_step rs enum corpus d) (pr, s, g0) = Inr (pr', s', g') \<and>
       keys pr' = keys corpus \<and> s' \<in> set (keys corpus) \<and>
       (\<forall>c\<in>set (dict_values pr'). 0 \<le> c) \<and>
       sum_list (dict_values pr') = sum_list (dict_values pr) + int m"
proof (induction m arbitrary: pr s g0)
  case 0
  then show ?case by simp
next
  case (Suc m)
  let ?pr1 = "map (\<lambda>(k, c). (k, if k = s then c + 1 else c)) pr"
  obtain s1 g1 where step: "sample_step rs enum corpus d (pr, s, g0) = Inr (?pr1, s1, g1)"
    and s1: "s1 \<in> set (keys corpus)"
    using sample_step_closed[OF g e r Suc.prems(1,2)] by blast
  have k1: "keys ?pr1 = keys corpus" using Suc.prems(1) by (simp only: keys_bump)
  have nn1: "\<forall>c\<in>set (dict_values ?pr1). 0 \<le> c"
    using Suc.prems(3) by (auto simp: dict_values_def)
  have dk: "distinct (map fst pr)" using g Suc.prems(1) by (simp add: valid_graph_def keys_def)
  have "s \<in> fst ` set pr" using Suc.prems(1,2) by (simp add: keys_def) (metis list.set_map)
  then have sum1: "sum_list (dict_values ?pr1) = sum_list (dict_values pr) + 1"
    unfolding dict_values_def using dk by (intro sum_bump)
  obtain pr' s' g' where rest: "repeat m (sample_step rs enum corpus d) (?pr1, s1, g1) = Inr (pr', s', g')"
    and inv: "keys pr' = keys corpus" "s' \<in> set (keys corpus)" "\<forall>c\<in>set (dict_values pr'). 0 \<le> c"
    and sum: "sum_list (dict_values pr') = sum_list (dict_values ?pr1) + int m"
    using Suc.IH[OF k1 s1 nn1] by blast
  have "repeat (Suc m) (sample_step rs enum corpus d) (pr, s, g0) = Inr (pr', s', g')"
    by (simp add: step bind_def rest)
  moreover have "sum_list (dict_values pr') = sum_list (dict_values pr) + int (Suc m)"
    using sum sum1 by simp
  ultimately show ?case using inv by blast
qed

lemma divide_values_closed:
  "n \<noteq> 0 \<Longrightarrow> divide_values pr n = Inr (map (\<lambda>(page, c). (page, real_of_int c / real_of_int n)) pr)"
  by (induction pr) (auto simp: true_div_def bind_def)

lemma sum_divided:
  "sum_list (dict_values (map (\<lambda>(page, c). (page, real_of_int c / real_of_int n)) pr)) =
   real_of_int (sum_list (dict_values pr)) / real_of_int n"
  by (induction pr) (auto simp: dict_values_def add_divide_distrib)

lemma fromkeys_zero:
  assumes "distinct ks"
  shows "keys (fromkeys ks (0::int)) = ks" "\<forall>c\<in>set (dict_values (fromkeys ks (0::int))). 0 \<le> c"
    "sum_list (dict_values (fromkeys ks (0::int))) = 0"
  by (simp_all add: fromkeys_distinct[OF assms] keys_def dict_values_def comp_def)

lemma bump_counts:
  "map (\<lambda>(k, c). (k, c + int (count_list path k)))
     (map (\<lambda>(k, c). (k, if k = s then c + 1 else c)) pr) =
   map (\<lambda>(k, c). (k, c + int (count_list (s # path) k))) pr"
  by (induction pr) auto

lemma repeat_sample_step_path:
  assumes g: "valid_graph corpus" and e: "valid_enum enum" and r: "random_ok rs"
  shows "keys pr = keys corpus \<Longrightarrow> s \<in> set (keys corpus) \<Longrightarrow>
    \<exists>path pr' s' g'. length path = m \<and>
       repeat m (sample_step rs enum corpus d) (pr, s, g0) = Inr (pr', s', g') \<and>
       pr' = map (\<lambda>(k, c). (k, c + int (count_list path k))) pr \<and>
       (\<forall>k<m. \<exists>pr1 g1.
          repeat k (sample_step rs enum corpus d) (pr, s, g0) = Inr (pr1, path ! k, g1))"
proof (induction m arbitrary: pr s g0)
  case 0
  have "length ([] :: 'a list) = 0 \<and>
       repeat 0 (sample_step rs enum corpus d) (pr, s, g0) = Inr (pr, s, g0) \<and>
       pr = map (\<lambda>(k, c). (k, c + int (count_list ([] :: 'a list) k))) pr \<and>
       (\<forall>k<0. \<exists>pr1 g1.
          repeat k (sample_step rs enum corpus d) (pr, s, g0) = Inr (pr1, ([] :: 'a list) ! k, g1))"
    by (simp add: case_prod_unfold)
  then show ?case by blast
next
  case (Suc m)
  let ?step = "sample_step rs enum corpus d"
  let ?pr1 = "map (\<lambda>(k, c). (k, if k = s then c + 1 else c)) pr"
  obtain s1 g1 where step: "?step (pr, s, g0) = Inr (?pr1, s1, g1)"
    and s1: "s1 \<in> set (keys corpus)"
    using sample_step_closed[OF g e r Suc.prems(1,2)] by blast
  have k1: "keys ?pr1 = keys corpus" using Suc.prems(1) by (simp only: keys_bump)
  obtain path pr' s' g' where len: "length path = m"
    and rest: "repeat m ?step (?pr1, s1, g1) = Inr (pr', s', g')"
    and cnt: "pr' = map (\<lambda>(k, c). (k, c + int (count_list path k))) ?pr1"
    and vis: "\<forall>k<m. \<exists>pr2 g2. repeat k ?step (?pr1, s1, g1) = Inr (pr2, path ! k, g2)"
    using Suc.IH[OF k1 s1, of g1] by (elim exE conjE) (rule that, assumption+)
  have "length (s # path) = Suc m" using len by simp
  moreover have "repeat (Suc m) ?step (pr, s, g0) = Inr (pr', s', g')"
    by (simp add: step bind_def rest)
  moreover have "pr' = map (\<lambda>(k, c). (k, c + int (count_list (s # path) k))) pr"
    using cnt by (simp only: bump_counts)
  moreover have "\<forall>k<Suc m. \<exists>pr2 g2. repeat k ?step (pr, s, g0) = Inr (pr2, (s # path) ! k, g2)"
  proof (intro allI impI)
    fix k assume k: "k < Suc m"
    show "\<exists>pr2 g2. repeat k ?step (pr, s, g0) = Inr (pr2, (s # path) ! k, g2)"
    proof (cases k)
      case 0
      then show ?thesis by simp
    next
      case (Suc k')
      then have "k' < m" using k by simp
      then obtain pr2 g2 where "repeat k' ?step (?pr1, s1, g1) = Inr (pr2, path ! k', g2)"
        using vis by blast
      then have "repeat k ?step (pr, s, g0) = Inr (pr2, (s # path) ! k, g2)"
        by (simp add: Suc step bind_def)
      then show ?thesis by blast
    qed
  qed
  ultimately show ?case by blast
qed

text \<open>
  Claim C4. For a graph with at least one page and a sample count \<open>n \<ge> 1\<close>, the walk of
  \<open>sample_pagerank\<close> is exactly \<open>n\<close> applications of \<open>sample_step\<close> to the state that has
  every counter at 0 and the first page drawn by \<open>random.choice\<close>. With \<open>path ! k\<close> the
  page that is current after \<open>k\<close> steps, step \<open>k + 1\<close> adds one to the counter of \<open>path ! k\<close>
  and leaves every other counter as it is, so the counter of a page is the number of its
  occurrences in \<open>path\<close>. The counters are non-negative integers summing to \<open>n\<close>, the
  result gives every page its counter divided by \<open>n\<close> (a multiple of \<open>1 / n\<close>), and the
  values sum to exactly 1.
\<close>

theorem sample_pagerank_counting:
  assumes "valid_graph corpus" and "corpus \<noteq> []" and "valid_enum enum"
    and "random_ok rs" and "1 \<le> n"
  shows "\<exists>first g0 path counts last g'.
     random_choice rs g (keys corpus) = Inr (first, g0) \<and>
     length path = nat n \<and>
     (\<forall>k<nat n. \<exists>pr g1 s' g2.
        repeat k (sample_step rs enum corpus d) (fromkeys (keys corpus) 0, first, g0) =
          Inr (pr, path ! k, g1) \<and>
        sample_step rs enum corpus d (pr, path ! k, g1) =
          Inr (map (\<lambda>(page, c). (page, if page = path ! k then c + 1 else c)) pr, s', g2) \<and>
        repeat (Suc k) (sample_step rs enum corpus d) (fromkeys (keys corpus) 0, first, g0) =
          Inr (map (\<lambda>(page, c). (page, if page = path ! k then c + 1 else c)) pr, s', g2)) \<and>
     repeat (nat n) (sample_step rs enum corpus d) (fromkeys (keys corpus) 0, first, g0) =
       Inr (counts, last, g') \<and>
     sample_walk rs enum corpus d n g = Inr (counts, last, g') \<and>
     counts = map (\<lambda>page. (page, int (count_list path page))) (keys corpus) \<and>
     keys counts = keys corpus \<and>
     (\<forall>c\<in>set (dict_values counts). 0 \<le> c) \<and>
     sum_list (dict_values counts) = n \<and>
     sample_pagerank rs enum corpus d n g =
       Inr (map (\<lambda>(page, c). (page, real_of_int c / real_of_int n)) counts, g') \<and>
     sum_list (dict_values (map (\<lambda>(page, c). (page, real_of_int c / real_of_int n)) counts)) = 1"
proof -
  let ?step = "sample_step rs enum corpus d"
  let ?zero = "fromkeys (keys corpus) (0::int)"
  have dk: "distinct (keys corpus)" using assms(1) by (simp add: valid_graph_def)
  have ne: "keys corpus \<noteq> []" using assms(2) by (simp add: keys_def)
  obtain first g0 where first: "random_choice rs g (keys corpus) = Inr (first, g0)"
    and fk: "first \<in> set (keys corpus)"
    using assms(4) ne unfolding random_ok_def by blast
  note z = fromkeys_zero[OF dk]
  have after: "\<exists>pr s g1. repeat m ?step (?zero, first, g0) = Inr (pr, s, g1) \<and>
       keys pr = keys corpus \<and> s \<in> set (keys corpus) \<and>
       (\<forall>c\<in>set (dict_values pr). 0 \<le> c) \<and> sum_list (dict_values pr) = int m" for m
    using repeat_sample_step[OF assms(1,3,4) z(1) fk z(2), of m d g0] z(3) by simp
  obtain path counts last g' where len: "length path = nat n"
    and walk: "repeat (nat n) ?step (?zero, first, g0) = Inr (counts, last, g')"
    and cnt: "counts = map (\<lambda>(k, c). (k, c + int (count_list path k))) ?zero"
    and vis: "\<forall>k<nat n. \<exists>pr1 g1. repeat k ?step (?zero, first, g0) = Inr (pr1, path ! k, g1)"
    using repeat_sample_step_path[OF assms(1,3,4) z(1) fk, of "nat n" d g0] by blast
  have counts: "counts = map (\<lambda>page. (page, int (count_list path page))) (keys corpus)"
    unfolding cnt by (simp add: fromkeys_distinct[OF dk] comp_def)
  have steps: "\<exists>pr g1 s' g2.
        repeat k ?step (?zero, first, g0) = Inr (pr, path ! k, g1) \<and>
        ?step (pr, path ! k, g1) =
          Inr (map (\<lambda>(page, c). (page, if page = path ! k then c + 1 else c)) pr, s', g2) \<and>
        repeat (Suc k) ?step (?zero, first, g0) =
          Inr (map (\<lambda>(page, c). (page, if page = path ! k then c + 1 else c)) pr, s', g2)"
    if k: "k < nat n" for k
  proof -
    obtain pr g1 where rk: "repeat k ?step (?zero, first, g0) = Inr (pr, path ! k, g1)"
      using vis k by blast
    obtain pr0 s0 g10 where rk0: "repeat k ?step (?zero, first, g0) = Inr (pr0, s0, g10)"
      and inv0: "keys pr0 = keys corpus" "s0 \<in> set (keys corpus)"
      using after[of k] by blast
    from rk rk0 have "pr0 = pr" "s0 = path ! k" by simp_all
    with inv0 have inv: "keys pr = keys corpus" "path ! k \<in> set (keys corpus)" by simp_all
    obtain s' g2 where st: "?step (pr, path ! k, g1) =
        Inr (map (\<lambda>(page, c). (page, if page = path ! k then c + 1 else c)) pr, s', g2)"
      using sample_step_closed[OF assms(1,3,4) inv] by blast
    then have "repeat (Suc k) ?step (?zero, first, g0) =
        Inr (map (\<lambda>(page, c). (page, if page = path ! k then c + 1 else c)) pr, s', g2)"
      by (simp only: repeat_Suc_right rk) (simp add: bind_def)
    with rk st show ?thesis by blast
  qed
  obtain counts0 last0 g0' where walk0: "repeat (nat n) ?step (?zero, first, g0) = Inr (counts0, last0, g0')"
    and ck0: "keys counts0 = keys corpus" and nn0: "\<forall>c\<in>set (dict_values counts0). 0 \<le> c"
    and total0: "sum_list (dict_values counts0) = int (nat n)"
    using after[of "nat n"] by blast
  from walk walk0 have same: "counts0 = counts" by simp
  have ck: "keys counts = keys corpus" and nn: "\<forall>c\<in>set (dict_values counts). 0 \<le> c"
    and total: "sum_list (dict_values counts) = int (nat n)"
    using ck0 nn0 total0 by (simp_all only: same)
  have w: "sample_walk rs enum corpus d n g = Inr (counts, last, g')"
    by (simp add: sample_walk_def first bind_def walk)
  have n0: "n \<noteq> 0" and tn: "sum_list (dict_values counts) = n" using assms(5) total by simp_all
  have res: "sample_pagerank rs enum corpus d n g =
       Inr (map (\<lambda>(page, c). (page, real_of_int c / real_of_int n)) counts, g')"
    by (simp add: sample_pagerank_def w bind_def divide_values_closed[OF n0])
  have one: "sum_list (dict_values (map (\<lambda>(page, c). (page, real_of_int c / real_of_int n)) counts)) = 1"
    using n0 by (simp add: sum_divided tn)
  show ?thesis
    using first len steps walk w counts ck nn tn res one by blast
qed

text \<open>The three-page example, five samples, the example source seeded with 1.\<close>

theorem sample_pagerank_counting_witness:
  "valid_graph example_corpus \<and> example_corpus \<noteq> [] \<and> valid_enum name_order \<and>
   random_ok (lcg_source :: (nat, string) random_source) \<and> (1::int) \<le> 5 \<and>
   (\<exists>first g0 path counts last g'.
     random_choice lcg_source (1::nat) (keys example_corpus) = Inr (first, g0) \<and>
     length path = nat 5 \<and>
     repeat (nat 5) (sample_step lcg_source name_order example_corpus (85 / 100))
       (fromkeys (keys example_corpus) 0, first, g0) = Inr (counts, last, g') \<and>
     sample_walk lcg_source name_order example_corpus (85 / 100) 5 (1::nat) = Inr (counts, last, g') \<and>
     counts = map (\<lambda>page. (page, int (count_list path page))) (keys example_corpus) \<and>
     keys counts = keys example_corpus \<and>
     sum_list (dict_values counts) = 5 \<and>
     sample_pagerank lcg_source name_order example_corpus (85 / 100) 5 1 =
       Inr (map (\<lambda>(page, c). (page, real_of_int c / real_of_int 5)) counts, g') \<and>
     sum_list (dict_values (map (\<lambda>(page, c). (page, real_of_int c / real_of_int 5)) counts)) = 1)"
proof -
  have ne: "example_corpus \<noteq> []" by (simp add: example_corpus_def)
  have n: "(1::int) \<le> 5" by simp
  show ?thesis
    using valid_example_corpus ne valid_enum_sorted random_ok_lcg n
      sample_pagerank_counting[OF valid_example_corpus ne valid_enum_sorted random_ok_lcg n,
        of "1::nat" "85 / 100"]
    by blast
qed

subsection \<open>One round of the iterative estimator\<close>

lemma for_each_accumulate:
  fixes t :: real
  assumes "\<And>x acc. x \<in> set xs \<Longrightarrow> body x acc = Inr (acc + c x)"
  shows "for_each body xs t = Inr (t + sum_list (map c xs))"
  using assms
proof (induction xs arbitrary: t)
  case Nil
  then show ?case by simp
next
  case (Cons x xs)
  have "body x t = Inr (t + c x)" using Cons.prems by simp
  moreover have "for_each body xs (t + c x) = Inr (t + c x + sum_list (map c xs))"
    using Cons.prems by (intro Cons.IH) simp
  ultimately show ?case by (simp add: bind_def add.assoc)
qed

lemma for_each_assign:
  "distinct (map fst d) \<Longrightarrow> distinct xs \<Longrightarrow> set xs \<subseteq> fst ` set d \<Longrightarrow>
   \<forall>k\<in>set xs. T k = Inr (F k) \<Longrightarrow>
   for_each (\<lambda>k d. bind (T k) (\<lambda>t. Inr (setitem d k t))) xs d =
     Inr (map (\<lambda>(k, v). (k, if k \<in> set xs then F k else v)) d)"
proof (induction xs arbitrary: d)
  case Nil
  then show ?case by (simp add: case_prod_unfold)
next
  case (Cons a xs)
  let ?body = "\<lambda>k d. bind (T k) (\<lambda>t. Inr (setitem d k t))"
  let ?d' = "map (\<lambda>(k', v'). (k', if k' = a then F a else v')) d"
  have "a \<in> fst ` set d" using Cons.prems(3) by simp
  then have "AList.update a (F a) d = ?d'"
    using Cons.prems(1) by (intro update_distinct_map)
  then have step: "?body a d = Inr ?d'"
    using Cons.prems(4) by (simp add: bind_def setitem_def)
  have keys': "map fst ?d' = map fst d" by (simp add: case_prod_unfold comp_def)
  have dist': "distinct (map fst ?d')" using Cons.prems(1) by (simp only: keys')
  have sub': "set xs \<subseteq> fst ` set ?d'"
    using Cons.prems(3) keys' by (metis list.set_map set_subset_Cons subset_trans)
  have rest: "for_each ?body xs ?d' =
        Inr (map (\<lambda>(k, v). (k, if k \<in> set xs then F k else v)) ?d')"
    using Cons.prems(2,4) dist' sub' by (intro Cons.IH) auto
  have merge: "map (\<lambda>(k, v). (k, if k \<in> set xs then F k else v)) ?d' =
        map (\<lambda>(k, v). (k, if k \<in> set (a # xs) then F k else v)) d"
    using Cons.prems(2) by (auto simp: case_prod_unfold)
  have "for_each ?body (a # xs) d = bind (?body a d) (for_each ?body xs)" by simp
  also have "\<dots> = bind (Inr ?d') (for_each ?body xs)" by (simp only: step)
  also have "\<dots> = for_each ?body xs ?d'" by (simp add: bind_def)
  also have "\<dots> = Inr (map (\<lambda>(k, v). (k, if k \<in> set xs then F k else v)) ?d')"
    by (simp only: rest)
  finally show ?case by (simp only: merge)
qed

lemma sum_over_keys:
  "distinct (map fst corpus) \<Longrightarrow>
   (\<Sum>q\<leftarrow>map fst corpus. case map_of corpus q of Some links \<Rightarrow> f q links | None \<Rightarrow> 0) =
   (\<Sum>(q, links)\<leftarrow>corpus. f q links :: real)"
proof -
  assume d: "distinct (map fst corpus)"
  have "map (\<lambda>q. case map_of corpus q of Some links \<Rightarrow> f q links | None \<Rightarrow> 0) (map fst corpus) =
        map (\<lambda>(q, links). f q links) corpus"
    unfolding map_map
  proof (rule map_cong[OF refl])
    fix e assume "e \<in> set corpus"
    then have "map_of corpus (fst e) = Some (snd e)" using d by simp
    then show "((\<lambda>q. case map_of corpus q of Some links \<Rightarrow> f q links | None \<Rightarrow> 0) \<circ> fst) e =
        (case e of (q, links) \<Rightarrow> f q links)"
      by (simp add: case_prod_unfold)
  qed
  then show ?thesis by (simp only:)
qed

lemma new_total_closed:
  assumes dk: "distinct (keys corpus)" and ne: "corpus \<noteq> []"
    and rk: "\<forall>q\<in>set (keys corpus). getitem pagerank q = Inr (rank q)"
  shows "new_total corpus d (length corpus) pagerank p =
     Inr ((1 - d) / real (length corpus) +
          (\<Sum>(q, links)\<leftarrow>corpus. link_weight (length corpus) d p links * rank q))"
proof -
  let ?n = "length corpus"
  let ?c = "\<lambda>q. case map_of corpus q of
       Some links \<Rightarrow> link_weight ?n d p links * rank q | None \<Rightarrow> 0"
  let ?body = "\<lambda>potential_linker total.
         bind (getitem corpus potential_linker) (\<lambda>links.
         if p |\<in>| links \<or> fcard links = 0 then
           let link_count = (if fcard links \<noteq> 0 then fcard links else ?n) in
           bind (getitem pagerank potential_linker) (\<lambda>r.
           bind (true_div (d * r) (real link_count)) (\<lambda>share.
           Inr (total + share)))
         else Inr total)"
  have n0: "real ?n \<noteq> 0" using ne by simp
  have body: "?body q acc = Inr (acc + ?c q)" if q: "q \<in> set (keys corpus)" for q acc
  proof -
    have "map_of corpus q \<noteq> None" using q by (simp add: keys_def map_of_eq_None_iff)
    then obtain links where links: "map_of corpus q = Some links" by auto
    have r: "getitem pagerank q = Inr (rank q)" using rk q by simp
    have mem: "p |\<in>| links \<Longrightarrow> fcard links \<noteq> 0" by auto
    show ?thesis
      using n0 mem
      by (simp add: getitem_def[of corpus] links r bind_def true_div_def link_weight_def Let_def)
  qed
  have "for_each ?body (keys corpus) ((1 - d) / real ?n) =
        Inr ((1 - d) / real ?n + sum_list (map ?c (keys corpus)))"
    by (rule for_each_accumulate) (rule body)
  moreover have "sum_list (map ?c (keys corpus)) =
        (\<Sum>(q, links)\<leftarrow>corpus. link_weight ?n d p links * rank q)"
    unfolding keys_def using dk[unfolded keys_def] by (rule sum_over_keys)
  ultimately show ?thesis
    using n0 by (simp add: new_total_def true_div_def bind_def)
qed

lemma recurrence_as_weights:
  "pagerank_recurrence corpus d rank p =
     (1 - d) / real (length corpus) +
     (\<Sum>(q, links)\<leftarrow>corpus. link_weight (length corpus) d p links * rank q)"
proof -
  let ?n = "real (length corpus)"
  have linked: "d * (\<Sum>(q, links)\<leftarrow>filter (\<lambda>(q, links). p |\<in>| links) corpus. rank q / real (fcard links)) =
      (\<Sum>e\<leftarrow>corpus. if p |\<in>| snd e then d * (rank (fst e) / real (fcard (snd e))) else 0)"
    by (simp add: sum_list_map_filter' sum_list_const_mult[symmetric] case_prod_unfold if_distrib
        cong: if_cong)
  have dangling: "d * (\<Sum>(q, links)\<leftarrow>filter (\<lambda>(q, links). fcard links = 0) corpus. rank q / ?n) =
      (\<Sum>e\<leftarrow>corpus. if fcard (snd e) = 0 then d * (rank (fst e) / ?n) else 0)"
    by (simp add: sum_list_map_filter' sum_list_const_mult[symmetric] case_prod_unfold if_distrib
        cong: if_cong)
  have "(\<Sum>e\<leftarrow>corpus. if p |\<in>| snd e then d * (rank (fst e) / real (fcard (snd e))) else 0) +
        (\<Sum>e\<leftarrow>corpus. if fcard (snd e) = 0 then d * (rank (fst e) / ?n) else 0) =
        (\<Sum>e\<leftarrow>corpus. link_weight (length corpus) d p (snd e) * rank (fst e))"
    unfolding sum_list_addf[symmetric]
    by (rule arg_cong[where f = sum_list], rule map_cong[OF refl]) (auto simp: link_weight_def)
  then show ?thesis
    unfolding pagerank_recurrence_def linked dangling by (simp add: case_prod_unfold)
qed

lemma getitem_value_at:
  "k \<in> set (keys rank) \<Longrightarrow> getitem rank k = Inr (value_at rank k)"
proof -
  assume "k \<in> set (keys rank)"
  then have "map_of rank k \<noteq> None" by (simp add: keys_def map_of_eq_None_iff)
  then show ?thesis by (auto simp: getitem_def value_at_def)
qed

lemma iterate_round_closed:
  assumes dk: "distinct (keys corpus)" and ne: "corpus \<noteq> []"
    and kr: "keys pagerank = keys corpus" and kn: "keys new_rank = keys corpus"
  shows "iterate_round corpus d (length corpus) pagerank new_rank =
           Inr (next_ranks corpus d pagerank)"
proof -
  let ?F = "pagerank_recurrence corpus d (value_at pagerank)"
  have rk: "\<forall>q\<in>set (keys corpus). getitem pagerank q = Inr (value_at pagerank q)"
    using kr by (simp add: getitem_value_at)
  have total: "\<forall>p\<in>set (keys pagerank). new_total corpus d (length corpus) pagerank p = Inr (?F p)"
    by (simp add: new_total_closed[OF dk ne rk] recurrence_as_weights)
  have dn: "distinct (map fst new_rank)" using dk kn by (simp add: keys_def)
  have dp: "distinct (keys pagerank)" using dk kr by simp
  have sub: "set (keys pagerank) \<subseteq> fst ` set new_rank"
    using kr kn by (simp add: keys_def) (metis list.set_map order_refl)
  have "iterate_round corpus d (length corpus) pagerank new_rank =
        Inr (map (\<lambda>(k, v). (k, if k \<in> set (keys pagerank) then ?F k else v)) new_rank)"
    unfolding iterate_round_def by (rule for_each_assign[OF dn dp sub total])
  also have "map (\<lambda>(k, v). (k, if k \<in> set (keys pagerank) then ?F k else v)) new_rank =
        map (\<lambda>e. (fst e, ?F (fst e))) new_rank"
  proof (rule map_cong[OF refl])
    fix e assume "e \<in> set new_rank"
    then have "fst e \<in> set (keys new_rank)" by (simp add: keys_def)
    then have "fst e \<in> set (keys pagerank)" by (simp only: kr kn)
    then show "(case e of (k, v) \<Rightarrow> (k, if k \<in> set (keys pagerank) then ?F k else v)) =
        (fst e, ?F (fst e))"
      by (simp add: case_prod_unfold)
  qed
  also have "\<dots> = map (\<lambda>p. (p, ?F p)) (keys new_rank)" by (simp add: keys_def comp_def)
  finally show ?thesis by (simp add: next_ranks_def kn)
qed

lemma keys_next_ranks: "keys (next_ranks corpus d rank) = keys corpus"
  by (simp add: next_ranks_def keys_tabulate)

lemma keys_rounds: "keys (rounds corpus d k) = keys corpus"
  by (cases k) (simp_all add: keys_next_ranks keys_tabulate)

lemma all_of_closed:
  "\<forall>x\<in>set xs. test x = Inr (P x) \<Longrightarrow> all_of test xs = Inr (list_all P xs)"
  by (induction xs) (simp_all add: bind_def)

lemma converged_closed:
  assumes "keys new_rank = keys pagerank"
  shows "converged pagerank new_rank = Inr (close_enough pagerank new_rank)"
  unfolding converged_def close_enough_def
  by (rule all_of_closed) (simp add: getitem_value_at assms bind_def)

lemma iterate_loop_step:
  assumes dk: "distinct (keys corpus)" and ne: "corpus \<noteq> []"
    and kr: "keys pagerank = keys corpus" and kn: "keys new_rank = keys corpus"
  shows "iterate_loop corpus d (length corpus) pagerank new_rank =
     (if close_enough pagerank (next_ranks corpus d pagerank) then Some (Inr pagerank)
      else iterate_loop corpus d (length corpus)
             (next_ranks corpus d pagerank) (next_ranks corpus d pagerank))"
proof -
  have c: "converged pagerank (next_ranks corpus d pagerank) =
      Inr (close_enough pagerank (next_ranks corpus d pagerank))"
    by (rule converged_closed) (simp add: keys_next_ranks kr)
  show ?thesis
    by (subst iterate_loop.simps) (simp add: iterate_round_closed[OF dk ne kr kn] c)
qed

lemma iterate_loop_rounds:
  assumes dk: "distinct (keys corpus)" and ne: "corpus \<noteq> []"
  shows "i \<le> k \<Longrightarrow> keys new_rank = keys corpus \<Longrightarrow>
    \<forall>j. i \<le> j \<and> j < k \<longrightarrow> \<not> close_enough (rounds corpus d j) (rounds corpus d (Suc j)) \<Longrightarrow>
    close_enough (rounds corpus d k) (rounds corpus d (Suc k)) \<Longrightarrow>
    iterate_loop corpus d (length corpus) (rounds corpus d i) new_rank =
      Some (Inr (rounds corpus d k))"
proof (induction "k - i" arbitrary: i new_rank)
  case 0
  then have "i = k" by simp
  with 0 show ?case
    by (simp add: iterate_loop_step[OF dk ne keys_rounds])
next
  case (Suc m)
  then have lt: "i < k" by simp
  then have nc: "\<not> close_enough (rounds corpus d i) (rounds corpus d (Suc i))"
    using Suc.prems(3) by simp
  have "iterate_loop corpus d (length corpus) (rounds corpus d (Suc i)) (rounds corpus d (Suc i)) =
      Some (Inr (rounds corpus d k))"
  proof (rule Suc.hyps(1))
    show "m = k - Suc i" using Suc.hyps(2) by simp
    show "Suc i \<le> k" using lt by simp
    show "keys (rounds corpus d (Suc i)) = keys corpus" by (rule keys_rounds)
    show "\<forall>j. Suc i \<le> j \<and> j < k \<longrightarrow>
        \<not> close_enough (rounds corpus d j) (rounds corpus d (Suc j))"
      using Suc.prems(3) by simp
    show "close_enough (rounds corpus d k) (rounds corpus d (Suc k))" by (rule Suc.prems(4))
  qed
  moreover have "iterate_loop corpus d (length corpus) (rounds corpus d i) new_rank =
     (if close_enough (rounds corpus d i) (next_ranks corpus d (rounds corpus d i))
      then Some (Inr (rounds corpus d i))
      else iterate_loop corpus d (length corpus)
             (next_ranks corpus d (rounds corpus d i)) (next_ranks corpus d (rounds corpus d i)))"
    by (rule iterate_loop_step[OF dk ne keys_rounds Suc.prems(2)])
  ultimately show ?case using nc by simp
qed

lemma iterate_pagerank_rounds:
  assumes dk: "distinct (keys corpus)" and ne: "corpus \<noteq> []"
    and first: "\<forall>j<k. \<not> close_enough (rounds corpus d j) (rounds corpus d (Suc j))"
    and stop: "close_enough (rounds corpus d k) (rounds corpus d (Suc k))"
  shows "iterate_pagerank corpus d = Some (Inr (rounds corpus d k))"
proof -
  have n0: "real (length corpus) \<noteq> 0" using ne by simp
  have start: "fromkeys (keys corpus) (1 / real (length corpus)) = rounds corpus d 0"
    by (simp add: fromkeys_distinct[OF dk])
  have zero: "keys (fromkeys (keys corpus) (0::real)) = keys corpus"
    by (simp add: fromkeys_distinct[OF dk] keys_tabulate)
  have "iterate_loop corpus d (length corpus) (rounds corpus d 0) (fromkeys (keys corpus) 0) =
      Some (Inr (rounds corpus d k))"
    using first stop by (intro iterate_loop_rounds[OF dk ne _ zero]) simp_all
  then show ?thesis
    using n0 by (simp add: iterate_pagerank_def true_div_def start Let_def)
qed

subsection \<open>Conservation of mass\<close>

lemma sum_list_swap:
  fixes f :: "'a \<Rightarrow> 'b \<Rightarrow> real"
  shows "(\<Sum>p\<leftarrow>ps. \<Sum>e\<leftarrow>es. f p e) = (\<Sum>e\<leftarrow>es. \<Sum>p\<leftarrow>ps. f p e)"
  by (induction ps) (simp_all add: sum_list_addf)

lemma link_weight_nonneg: "0 \<le> d \<Longrightarrow> 0 \<le> link_weight n d p links"
  by (simp add: link_weight_def)

lemma column_sum:
  assumes g: "valid_graph corpus" and e: "(q, links) \<in> set corpus"
  shows "(\<Sum>p\<leftarrow>keys corpus. link_weight (length corpus) d p links) = d"
proof -
  have dk: "distinct (keys corpus)" using g by (simp add: valid_graph_def)
  have n0: "real (length corpus) \<noteq> 0" using e by (cases corpus) auto
  have len: "length (keys corpus) = length corpus" by (simp add: keys_def)
  show ?thesis
  proof (cases "links = {||}")
    case True
    then have "link_weight (length corpus) d p links = d / real (length corpus)" for p
      by (simp add: link_weight_def)
    then show ?thesis using n0 by (simp add: sum_list_triv len)
  next
    case False
    have p: "map_of corpus q = Some links" using e dk by (simp add: keys_def)
    have "link_weight (length corpus) d p links =
        (if p |\<in>| links then d / real (fcard links) else 0)" for p
      using False by (simp add: link_weight_def)
    then show ?thesis
      using sum_link_share[OF dk valid_graph_links[OF g p] False, of d] by simp
  qed
qed

lemma value_at_tabulate: "p \<in> set ks \<Longrightarrow> value_at (map (\<lambda>k. (k, f k)) ks) p = f p"
  by (induction ks) (auto simp: value_at_def)

lemma sum_values_at:
  assumes "distinct (keys rank)"
  shows "(\<Sum>q\<leftarrow>keys rank. f (value_at rank q)) = (\<Sum>v\<leftarrow>dict_values rank. f v)"
proof -
  have "map (\<lambda>q. f (value_at rank q)) (keys rank) = map f (dict_values rank)"
    unfolding keys_def dict_values_def map_map
  proof (rule map_cong[OF refl])
    fix e assume "e \<in> set rank"
    then have "map_of rank (fst e) = Some (snd e)" using assms by (simp add: keys_def)
    then show "((\<lambda>q. f (value_at rank q)) \<circ> fst) e = (f \<circ> snd) e"
      by (simp add: value_at_def)
  qed
  then show ?thesis by (simp only:)
qed

lemma values_next_ranks:
  "dict_values (next_ranks corpus d rank) =
     map (\<lambda>p. (1 - d) / real (length corpus) +
          (\<Sum>e\<leftarrow>corpus. link_weight (length corpus) d p (snd e) * value_at rank (fst e)))
       (keys corpus)"
  by (simp add: next_ranks_def dict_values_def comp_def recurrence_as_weights case_prod_unfold)

lemma weighted_total:
  assumes g: "valid_graph corpus"
  shows "(\<Sum>p\<leftarrow>keys corpus. \<Sum>e\<leftarrow>corpus. link_weight (length corpus) d p (snd e) * f (fst e)) =
         d * (\<Sum>q\<leftarrow>keys corpus. f q)"
proof -
  have "(\<Sum>p\<leftarrow>keys corpus. \<Sum>e\<leftarrow>corpus. link_weight (length corpus) d p (snd e) * f (fst e)) =
        (\<Sum>e\<leftarrow>corpus. \<Sum>p\<leftarrow>keys corpus. link_weight (length corpus) d p (snd e) * f (fst e))"
    by (rule sum_list_swap)
  also have "\<dots> = (\<Sum>e\<leftarrow>corpus. d * f (fst e))"
  proof (rule arg_cong[where f = sum_list], rule map_cong[OF refl])
    fix e assume "e \<in> set corpus"
    then have "(\<Sum>p\<leftarrow>keys corpus. link_weight (length corpus) d p (snd e)) = d"
      using column_sum[OF g, of "fst e" "snd e" d] by simp
    then show "(\<Sum>p\<leftarrow>keys corpus. link_weight (length corpus) d p (snd e) * f (fst e)) = d * f (fst e)"
      by (simp add: sum_list_mult_const)
  qed
  also have "\<dots> = d * (\<Sum>q\<leftarrow>keys corpus. f q)"
    by (simp add: sum_list_const_mult keys_def comp_def)
  finally show ?thesis .
qed

lemma sum_next_ranks:
  assumes g: "valid_graph corpus" and ne: "corpus \<noteq> []" and kr: "keys rank = keys corpus"
  shows "sum_list (dict_values (next_ranks corpus d rank)) =
           (1 - d) + d * sum_list (dict_values rank)"
proof -
  have dk: "distinct (keys rank)" using g kr by (simp add: valid_graph_def)
  have n0: "real (length corpus) \<noteq> 0" using ne by simp
  have len: "length (keys corpus) = length corpus" by (simp add: keys_def)
  have "(\<Sum>p\<leftarrow>keys corpus. (1 - d) / real (length corpus)) = 1 - d"
    using n0 by (simp add: sum_list_triv len)
  moreover have "(\<Sum>q\<leftarrow>keys corpus. value_at rank q) = sum_list (dict_values rank)"
    using sum_values_at[OF dk, of "\<lambda>v. v"] by (simp add: kr)
  ultimately show ?thesis
    by (simp add: values_next_ranks sum_list_addf weighted_total[OF g])
qed

lemma value_at_nonneg:
  "\<forall>v\<in>set (dict_values rank). 0 \<le> v \<Longrightarrow> 0 \<le> value_at rank q"
proof (cases "map_of rank q")
  case None
  then show ?thesis by (simp add: value_at_def)
next
  case (Some v)
  assume nn: "\<forall>v\<in>set (dict_values rank). 0 \<le> v"
  from Some have "(q, v) \<in> set rank" by (rule map_of_SomeD)
  then have "v \<in> set (dict_values rank)" by (force simp: dict_values_def)
  with nn Some show ?thesis by (simp add: value_at_def)
qed

lemma next_ranks_nonneg:
  assumes "0 \<le> d" "d \<le> 1" "\<forall>v\<in>set (dict_values rank). 0 \<le> v"
  shows "\<forall>v\<in>set (dict_values (next_ranks corpus d rank)). 0 \<le> v"
proof -
  have "0 \<le> (1 - d) / real (length corpus) +
          (\<Sum>e\<leftarrow>corpus. link_weight (length corpus) d p (snd e) * value_at rank (fst e))" for p
  proof -
    have "0 \<le> (\<Sum>e\<leftarrow>corpus. link_weight (length corpus) d p (snd e) * value_at rank (fst e))"
      using assms by (intro sum_list_nonneg) (auto intro!: mult_nonneg_nonneg link_weight_nonneg value_at_nonneg)
    moreover have "0 \<le> (1 - d) / real (length corpus)" using assms(2) by simp
    ultimately show ?thesis by simp
  qed
  then show ?thesis unfolding values_next_ranks by auto
qed

lemma rank_vector_bounds:
  assumes "\<forall>v\<in>set vs. (0::real) \<le> v" "sum_list vs = 1"
  shows "list_all (\<lambda>v. 0 \<le> v \<and> v \<le> 1) vs"
proof -
  have "v \<le> 1" if "v \<in> set vs" for v
    using member_le_sum_list[OF that] assms by auto
  then show ?thesis using assms(1) by (simp add: list_all_iff)
qed

lemma rank_vector_next:
  assumes g: "valid_graph corpus" and ne: "corpus \<noteq> []" and d: "0 \<le> d" "d \<le> 1"
    and r: "rank_vector corpus rank"
  shows "rank_vector corpus (next_ranks corpus d rank)"
proof -
  have kr: "keys rank = keys corpus" and nn: "\<forall>v\<in>set (dict_values rank). 0 \<le> v"
    and one: "sum_list (dict_values rank) = 1"
    using r by (simp_all add: rank_vector_def list_all_iff)
  have "sum_list (dict_values (next_ranks corpus d rank)) = 1"
    by (simp add: sum_next_ranks[OF g ne kr] one)
  then show ?thesis
    using next_ranks_nonneg[OF d nn, of corpus]
    by (simp add: rank_vector_def keys_next_ranks rank_vector_bounds)
qed

lemma rank_vector_start:
  assumes ne: "corpus \<noteq> []"
  shows "rank_vector corpus (rounds corpus d 0)"
proof -
  have n0: "real (length corpus) \<noteq> 0" using ne by simp
  have "sum_list (dict_values (rounds corpus d 0)) = 1"
    using n0 by (simp add: dict_values_def comp_def sum_list_triv keys_def)
  moreover have "\<forall>v\<in>set (dict_values (rounds corpus d 0)). 0 \<le> v"
    by (simp add: dict_values_def comp_def)
  ultimately show ?thesis
    by (simp add: rank_vector_def keys_rounds rank_vector_bounds del: rounds.simps)
qed

lemma rank_vector_rounds:
  assumes "valid_graph corpus" "corpus \<noteq> []" "0 \<le> d" "d \<le> 1"
  shows "rank_vector corpus (rounds corpus d k)"
proof (induction k)
  case 0
  show ?case by (rule rank_vector_start[OF assms(2)])
next
  case (Suc k)
  then show ?case using rank_vector_next[OF assms] by simp
qed

subsection \<open>Termination: one round contracts the distance between rank vectors\<close>

lemma value_at_next_ranks:
  "p \<in> set (keys corpus) \<Longrightarrow>
   value_at (next_ranks corpus d rank) p =
     (1 - d) / real (length corpus) +
     (\<Sum>e\<leftarrow>corpus. link_weight (length corpus) d p (snd e) * value_at rank (fst e))"
  by (simp add: next_ranks_def value_at_tabulate recurrence_as_weights case_prod_unfold)

lemma next_ranks_contract:
  assumes g: "valid_graph corpus" and d: "0 \<le> d"
  shows "(\<Sum>p\<leftarrow>keys corpus. \<bar>value_at (next_ranks corpus d r') p - value_at (next_ranks corpus d r) p\<bar>)
       \<le> d * (\<Sum>q\<leftarrow>keys corpus. \<bar>value_at r' q - value_at r q\<bar>)"
proof -
  let ?W = "\<lambda>p e. link_weight (length corpus) d p (snd e)"
  let ?\<delta> = "\<lambda>q. value_at r' q - value_at r q"
  have pointwise: "\<bar>value_at (next_ranks corpus d r') p - value_at (next_ranks corpus d r) p\<bar>
      \<le> (\<Sum>e\<leftarrow>corpus. ?W p e * \<bar>?\<delta> (fst e)\<bar>)" if p: "p \<in> set (keys corpus)" for p
  proof -
    have "value_at (next_ranks corpus d r') p - value_at (next_ranks corpus d r) p =
        (\<Sum>e\<leftarrow>corpus. ?W p e * value_at r' (fst e)) - (\<Sum>e\<leftarrow>corpus. ?W p e * value_at r (fst e))"
      by (simp add: value_at_next_ranks[OF p])
    also have "\<dots> = (\<Sum>e\<leftarrow>corpus. ?W p e * ?\<delta> (fst e))"
      by (simp add: sum_list_subtractf[symmetric] right_diff_distrib)
    finally have "\<bar>value_at (next_ranks corpus d r') p - value_at (next_ranks corpus d r) p\<bar> =
        \<bar>\<Sum>e\<leftarrow>corpus. ?W p e * ?\<delta> (fst e)\<bar>" by simp
    also have "\<dots> \<le> sum_list (map abs (map (\<lambda>e. ?W p e * ?\<delta> (fst e)) corpus))"
      by (rule sum_list_abs)
    also have "\<dots> = (\<Sum>e\<leftarrow>corpus. ?W p e * \<bar>?\<delta> (fst e)\<bar>)"
      by (simp add: comp_def abs_mult abs_of_nonneg[OF link_weight_nonneg[OF d]])
    finally show ?thesis .
  qed
  have "(\<Sum>p\<leftarrow>keys corpus. \<bar>value_at (next_ranks corpus d r') p - value_at (next_ranks corpus d r) p\<bar>)
      \<le> (\<Sum>p\<leftarrow>keys corpus. \<Sum>e\<leftarrow>corpus. ?W p e * \<bar>?\<delta> (fst e)\<bar>)"
    by (rule sum_list_mono) (rule pointwise)
  also have "\<dots> = d * (\<Sum>q\<leftarrow>keys corpus. \<bar>?\<delta> q\<bar>)"
    by (rule weighted_total[OF g])
  finally show ?thesis .
qed

lemma rounds_geometric:
  assumes g: "valid_graph corpus" and d: "0 \<le> d"
  shows "(\<Sum>p\<leftarrow>keys corpus. \<bar>value_at (rounds corpus d (Suc k)) p - value_at (rounds corpus d k) p\<bar>)
       \<le> d ^ k * (\<Sum>p\<leftarrow>keys corpus. \<bar>value_at (rounds corpus d (Suc 0)) p - value_at (rounds corpus d 0) p\<bar>)"
proof (induction k)
  case 0
  show ?case by simp
next
  case (Suc k)
  have "(\<Sum>p\<leftarrow>keys corpus. \<bar>value_at (rounds corpus d (Suc (Suc k))) p - value_at (rounds corpus d (Suc k)) p\<bar>)
      \<le> d * (\<Sum>p\<leftarrow>keys corpus. \<bar>value_at (rounds corpus d (Suc k)) p - value_at (rounds corpus d k) p\<bar>)"
    using next_ranks_contract[OF g d, of "rounds corpus d (Suc k)" "rounds corpus d k"] by simp
  also have "\<dots> \<le> d * (d ^ k * (\<Sum>p\<leftarrow>keys corpus. \<bar>value_at (rounds corpus d (Suc 0)) p - value_at (rounds corpus d 0) p\<bar>))"
    using Suc.IH d by (rule mult_left_mono)
  finally show ?case by (simp add: mult.assoc)
qed

lemma close_enough_from_distance:
  assumes "(\<Sum>p\<leftarrow>keys rank. \<bar>value_at new_rank p - value_at rank p\<bar>) < convergence_threshold"
  shows "close_enough rank new_rank"
proof -
  have "\<bar>value_at new_rank p - value_at rank p\<bar> < convergence_threshold"
    if "p \<in> set (keys rank)" for p
  proof -
    have "\<bar>value_at new_rank p - value_at rank p\<bar> \<in>
        set (map (\<lambda>p. \<bar>value_at new_rank p - value_at rank p\<bar>) (keys rank))"
      using that by simp
    then have "\<bar>value_at new_rank p - value_at rank p\<bar> \<le>
        (\<Sum>p\<leftarrow>keys rank. \<bar>value_at new_rank p - value_at rank p\<bar>)"
      by (rule member_le_sum_list) auto
    with assms show ?thesis by simp
  qed
  then show ?thesis by (simp add: close_enough_def list_all_iff)
qed

lemma rounds_eventually_close:
  assumes g: "valid_graph corpus" and d: "0 \<le> d" "d < 1"
  shows "\<exists>k. close_enough (rounds corpus d k) (rounds corpus d (Suc k))"
proof -
  let ?D = "\<lambda>k. \<Sum>p\<leftarrow>keys corpus. \<bar>value_at (rounds corpus d (Suc k)) p - value_at (rounds corpus d k) p\<bar>"
  have D0: "0 \<le> ?D 0" by (rule sum_list_nonneg) auto
  have "0 < convergence_threshold / (?D 0 + 1)"
    using D0 by (simp add: convergence_threshold_def)
  then obtain k where k: "d ^ k < convergence_threshold / (?D 0 + 1)"
    using real_arch_pow_inv[OF _ d(2)] by blast
  have "?D k \<le> d ^ k * ?D 0" by (rule rounds_geometric[OF g d(1)])
  also have "\<dots> \<le> d ^ k * (?D 0 + 1)" using d(1) by (intro mult_left_mono) simp_all
  also have "\<dots> < convergence_threshold" using k D0 by (simp add: pos_less_divide_eq)
  finally have "(\<Sum>p\<leftarrow>keys (rounds corpus d k).
      \<bar>value_at (rounds corpus d (Suc k)) p - value_at (rounds corpus d k) p\<bar>) < convergence_threshold"
    by (simp only: keys_rounds)
  then have "close_enough (rounds corpus d k) (rounds corpus d (Suc k))"
    by (rule close_enough_from_distance)
  then show ?thesis ..
qed

lemma first_close_round:
  assumes g: "valid_graph corpus" and d: "0 \<le> d" "d < 1"
  shows "\<exists>k. (\<forall>j<k. \<not> close_enough (rounds corpus d j) (rounds corpus d (Suc j))) \<and>
             close_enough (rounds corpus d k) (rounds corpus d (Suc k))"
proof -
  let ?P = "\<lambda>k. close_enough (rounds corpus d k) (rounds corpus d (Suc k))"
  have ex: "\<exists>k. ?P k" by (rule rounds_eventually_close[OF g d])
  have "?P (LEAST k. ?P k)" using ex by (rule LeastI_ex)
  moreover have "\<forall>j<(LEAST k. ?P k). \<not> ?P j" using not_less_Least by blast
  ultimately show ?thesis by blast
qed

subsection \<open>The claims about the iterative estimator\<close>

text \<open>
  Claim C1. Every round of \<open>iterate_pagerank\<close> computes, for every page \<open>p\<close>,
  \<open>new_rank(p) = (1 - d) / N + d * (sum over the pages q linking to p of rank(q) / outdegree(q))
  + d * (sum over the dangling pages q of rank(q) / N)\<close>, where every \<open>rank(q)\<close> is read
  from the rank vector of the previous round: the result does not depend on the values
  \<open>new_rank\<close> holds or receives during the round.
\<close>

theorem iterate_round_recurrence:
  assumes "distinct (keys corpus)" and "corpus \<noteq> []"
    and "keys pagerank = keys corpus" and "keys new_rank = keys corpus"
  shows "\<exists>new_rank'. iterate_round corpus d (length corpus) pagerank new_rank = Inr new_rank' \<and>
     keys new_rank' = keys corpus \<and>
     (\<forall>p\<in>set (keys corpus).
        getitem new_rank' p = Inr (pagerank_recurrence corpus d (value_at pagerank) p))"
proof -
  have "\<forall>p\<in>set (keys corpus). getitem (next_ranks corpus d pagerank) p =
      Inr (pagerank_recurrence corpus d (value_at pagerank) p)"
    by (simp add: next_ranks_def getitem_tabulate)
  then show ?thesis
    by (simp add: iterate_round_closed[OF assms] keys_next_ranks)
qed

text \<open>The first round on the three-page example.\<close>

theorem iterate_round_recurrence_witness:
  "distinct (keys example_corpus) \<and> example_corpus \<noteq> [] \<and>
   keys [(''1.html'', 1 / 3), (''2.html'', 1 / 3), (''3.html'', 1 / 3 :: real)] = keys example_corpus \<and>
   keys [(''1.html'', 0), (''2.html'', 0), (''3.html'', 0 :: real)] = keys example_corpus \<and>
   (\<exists>new_rank'. iterate_round example_corpus (85 / 100) (length example_corpus)
        [(''1.html'', 1 / 3), (''2.html'', 1 / 3), (''3.html'', 1 / 3)]
        [(''1.html'', 0), (''2.html'', 0), (''3.html'', 0)] = Inr new_rank' \<and>
     keys new_rank' = keys example_corpus \<and>
     (\<forall>p\<in>set (keys example_corpus).
        getitem new_rank' p = Inr (pagerank_recurrence example_corpus (85 / 100)
          (value_at [(''1.html'', 1 / 3), (''2.html'', 1 / 3), (''3.html'', 1 / 3)]) p)))"
proof -
  have h: "distinct (keys example_corpus)" "example_corpus \<noteq> []"
    "keys [(''1.html'', 1 / 3), (''2.html'', 1 / 3), (''3.html'', 1 / 3 :: real)] = keys example_corpus"
    "keys [(''1.html'', 0), (''2.html'', 0), (''3.html'', 0 :: real)] = keys example_corpus"
    by (simp_all add: example_corpus_def keys_def)
  show ?thesis
    using h iterate_round_recurrence[OF h, of "85 / 100"] by blast
qed

subsection \<open>The graph with a dangling page, round by round\<close>

lemma dangling_start: "rounds dangling_corpus (17 / 20) 0 = [(''A'', 1 / 2), (''B'', 1 / 2)]"
  by (simp add: dangling_corpus_def keys_def)

lemma dangling_next_0:
  "next_ranks dangling_corpus (17 / 20) [(''A'', 1 / 2), (''B'', 1 / 2)] =
     [(''A'', 57 / 80), (''B'', 23 / 80)]"
  by (simp add: next_ranks_def pagerank_recurrence_def value_at_def dangling_corpus_def keys_def
      fcard_finsert_if fcard_fempty)

lemma dangling_next_1:
  "next_ranks dangling_corpus (17 / 20) [(''A'', 57 / 80), (''B'', 23 / 80)] =
     [(''A'', 1991 / 3200), (''B'', 1209 / 3200)]"
  by (simp add: next_ranks_def pagerank_recurrence_def value_at_def dangling_corpus_def keys_def
      fcard_finsert_if fcard_fempty)

lemma dangling_next_2:
  "next_ranks dangling_corpus (17 / 20) [(''A'', 1991 / 3200), (''B'', 1209 / 3200)] =
     [(''A'', 84553 / 128000), (''B'', 43447 / 128000)]"
  by (simp add: next_ranks_def pagerank_recurrence_def value_at_def dangling_corpus_def keys_def
      fcard_finsert_if fcard_fempty)

lemma dangling_next_3:
  "next_ranks dangling_corpus (17 / 20) [(''A'', 84553 / 128000), (''B'', 43447 / 128000)] =
     [(''A'', 3298599 / 5120000), (''B'', 1821401 / 5120000)]"
  by (simp add: next_ranks_def pagerank_recurrence_def value_at_def dangling_corpus_def keys_def
      fcard_finsert_if fcard_fempty)

lemma dangling_next_4:
  "next_ranks dangling_corpus (17 / 20) [(''A'', 3298599 / 5120000), (''B'', 1821401 / 5120000)] =
     [(''A'', 133363817 / 204800000), (''B'', 71436183 / 204800000)]"
  by (simp add: next_ranks_def pagerank_recurrence_def value_at_def dangling_corpus_def keys_def
      fcard_finsert_if fcard_fempty)

lemma dangling_next_5:
  "next_ranks dangling_corpus (17 / 20) [(''A'', 133363817 / 204800000), (''B'', 71436183 / 204800000)] =
     [(''A'', 5310415111 / 8192000000), (''B'', 2881584889 / 8192000000)]"
  by (simp add: next_ranks_def pagerank_recurrence_def value_at_def dangling_corpus_def keys_def
      fcard_finsert_if fcard_fempty)

lemma dangling_next_6:
  "next_ranks dangling_corpus (17 / 20) [(''A'', 5310415111 / 8192000000), (''B'', 2881584889 / 8192000000)] =
     [(''A'', 212826943113 / 327680000000), (''B'', 114853056887 / 327680000000)]"
  by (simp add: next_ranks_def pagerank_recurrence_def value_at_def dangling_corpus_def keys_def
      fcard_finsert_if fcard_fempty)

lemma dangling_next_7:
  "next_ranks dangling_corpus (17 / 20) [(''A'', 212826943113 / 327680000000), (''B'', 114853056887 / 327680000000)] =
     [(''A'', 8506101967079 / 13107200000000), (''B'', 4601098032921 / 13107200000000)]"
  by (simp add: next_ranks_def pagerank_recurrence_def value_at_def dangling_corpus_def keys_def
      fcard_finsert_if fcard_fempty)

lemma dangling_test_0:
  "\<not> close_enough [(''A'', 1 / 2), (''B'', 1 / 2)]
     [(''A'', 57 / 80), (''B'', 23 / 80)]"
  by (simp add: close_enough_def value_at_def keys_def convergence_threshold_def)

lemma dangling_test_1:
  "\<not> close_enough [(''A'', 57 / 80), (''B'', 23 / 80)]
     [(''A'', 1991 / 3200), (''B'', 1209 / 3200)]"
  by (simp add: close_enough_def value_at_def keys_def convergence_threshold_def)

lemma dangling_test_2:
  "\<not> close_enough [(''A'', 1991 / 3200), (''B'', 1209 / 3200)]
     [(''A'', 84553 / 128000), (''B'', 43447 / 128000)]"
  by (simp add: close_enough_def value_at_def keys_def convergence_threshold_def)

lemma dangling_test_3:
  "\<not> close_enough [(''A'', 84553 / 128000), (''B'', 43447 / 128000)]
     [(''A'', 3298599 / 5120000), (''B'', 1821401 / 5120000)]"
  by (simp add: close_enough_def value_at_def keys_def convergence_threshold_def)

lemma dangling_test_4:
  "\<not> close_enough [(''A'', 3298599 / 5120000), (''B'', 1821401 / 5120000)]
     [(''A'', 133363817 / 204800000), (''B'', 71436183 / 204800000)]"
  by (simp add: close_enough_def value_at_def keys_def convergence_threshold_def)

lemma dangling_test_5:
  "\<not> close_enough [(''A'', 133363817 / 204800000), (''B'', 71436183 / 204800000)]
     [(''A'', 5310415111 / 8192000000), (''B'', 2881584889 / 8192000000)]"
  by (simp add: close_enough_def value_at_def keys_def convergence_threshold_def)

lemma dangling_test_6:
  "\<not> close_enough [(''A'', 5310415111 / 8192000000), (''B'', 2881584889 / 8192000000)]
     [(''A'', 212826943113 / 327680000000), (''B'', 114853056887 / 327680000000)]"
  by (simp add: close_enough_def value_at_def keys_def convergence_threshold_def)

lemma dangling_test_7:
  "close_enough [(''A'', 212826943113 / 327680000000), (''B'', 114853056887 / 327680000000)]
     [(''A'', 8506101967079 / 13107200000000), (''B'', 4601098032921 / 13107200000000)]"
  by (simp add: close_enough_def value_at_def keys_def convergence_threshold_def)

lemma dangling_rounds:
  shows "rounds dangling_corpus (17 / 20) 0 = [(''A'', 1 / 2), (''B'', 1 / 2)]"
    and "rounds dangling_corpus (17 / 20) (Suc 0) = [(''A'', 57 / 80), (''B'', 23 / 80)]"
    and "rounds dangling_corpus (17 / 20) 1 = [(''A'', 57 / 80), (''B'', 23 / 80)]"
    and "rounds dangling_corpus (17 / 20) (Suc 1) = [(''A'', 1991 / 3200), (''B'', 1209 / 3200)]"
    and "rounds dangling_corpus (17 / 20) 2 = [(''A'', 1991 / 3200), (''B'', 1209 / 3200)]"
    and "rounds dangling_corpus (17 / 20) (Suc 2) = [(''A'', 84553 / 128000), (''B'', 43447 / 128000)]"
    and "rounds dangling_corpus (17 / 20) 3 = [(''A'', 84553 / 128000), (''B'', 43447 / 128000)]"
    and "rounds dangling_corpus (17 / 20) (Suc 3) = [(''A'', 3298599 / 5120000), (''B'', 1821401 / 5120000)]"
    and "rounds dangling_corpus (17 / 20) 4 = [(''A'', 3298599 / 5120000), (''B'', 1821401 / 5120000)]"
    and "rounds dangling_corpus (17 / 20) (Suc 4) = [(''A'', 133363817 / 204800000), (''B'', 71436183 / 204800000)]"
    and "rounds dangling_corpus (17 / 20) 5 = [(''A'', 133363817 / 204800000), (''B'', 71436183 / 204800000)]"
    and "rounds dangling_corpus (17 / 20) (Suc 5) = [(''A'', 5310415111 / 8192000000), (''B'', 2881584889 / 8192000000)]"
    and "rounds dangling_corpus (17 / 20) 6 = [(''A'', 5310415111 / 8192000000), (''B'', 2881584889 / 8192000000)]"
    and "rounds dangling_corpus (17 / 20) (Suc 6) = [(''A'', 212826943113 / 327680000000), (''B'', 114853056887 / 327680000000)]"
    and "rounds dangling_corpus (17 / 20) 7 = [(''A'', 212826943113 / 327680000000), (''B'', 114853056887 / 327680000000)]"
    and "rounds dangling_corpus (17 / 20) (Suc 7) = [(''A'', 8506101967079 / 13107200000000), (''B'', 4601098032921 / 13107200000000)]"
    and "rounds dangling_corpus (17 / 20) 8 = [(''A'', 8506101967079 / 13107200000000), (''B'', 4601098032921 / 13107200000000)]"
proof -
  show v0: "rounds dangling_corpus (17 / 20) 0 = [(''A'', 1 / 2), (''B'', 1 / 2)]" by (rule dangling_start)
  have "rounds dangling_corpus (17 / 20) (Suc 0) = next_ranks dangling_corpus (17 / 20) (rounds dangling_corpus (17 / 20) 0)"
    by (rule rounds.simps(2))
  then show s0: "rounds dangling_corpus (17 / 20) (Suc 0) = [(''A'', 57 / 80), (''B'', 23 / 80)]"
    by (simp only: v0 dangling_next_0)
  have "(1::nat) = Suc 0" by simp
  then show v1: "rounds dangling_corpus (17 / 20) 1 = [(''A'', 57 / 80), (''B'', 23 / 80)]"
    using s0 by (simp only:)
  have "rounds dangling_corpus (17 / 20) (Suc 1) = next_ranks dangling_corpus (17 / 20) (rounds dangling_corpus (17 / 20) 1)"
    by (rule rounds.simps(2))
  then show s1: "rounds dangling_corpus (17 / 20) (Suc 1) = [(''A'', 1991 / 3200), (''B'', 1209 / 3200)]"
    by (simp only: v1 dangling_next_1)
  have "(2::nat) = Suc 1" by simp
  then show v2: "rounds dangling_corpus (17 / 20) 2 = [(''A'', 1991 / 3200), (''B'', 1209 / 3200)]"
    using s1 by (simp only:)
  have "rounds dangling_corpus (17 / 20) (Suc 2) = next_ranks dangling_corpus (17 / 20) (rounds dangling_corpus (17 / 20) 2)"
    by (rule rounds.simps(2))
  then show s2: "rounds dangling_corpus (17 / 20) (Suc 2) = [(''A'', 84553 / 128000), (''B'', 43447 / 128000)]"
    by (simp only: v2 dangling_next_2)
  have "(3::nat) = Suc 2" by simp
  then show v3: "rounds dangling_corpus (17 / 20) 3 = [(''A'', 84553 / 128000), (''B'', 43447 / 128000)]"
    using s2 by (simp only:)
  have "rounds dangling_corpus (17 / 20) (Suc 3) = next_ranks dangling_corpus (17 / 20) (rounds dangling_corpus (17 / 20) 3)"
    by (rule rounds.simps(2))
  then show s3: "rounds dangling_corpus (17 / 20) (Suc 3) = [(''A'', 3298599 / 5120000), (''B'', 1821401 / 5120000)]"
    by (simp only: v3 dangling_next_3)
  have "(4::nat) = Suc 3" by simp
  then show v4: "rounds dangling_corpus (17 / 20) 4 = [(''A'', 3298599 / 5120000), (''B'', 1821401 / 5120000)]"
    using s3 by (simp only:)
  have "rounds dangling_corpus (17 / 20) (Suc 4) = next_ranks dangling_corpus (17 / 20) (rounds dangling_corpus (17 / 20) 4)"
    by (rule rounds.simps(2))
  then show s4: "rounds dangling_corpus (17 / 20) (Suc 4) = [(''A'', 133363817 / 204800000), (''B'', 71436183 / 204800000)]"
    by (simp only: v4 dangling_next_4)
  have "(5::nat) = Suc 4" by simp
  then show v5: "rounds dangling_corpus (17 / 20) 5 = [(''A'', 133363817 / 204800000), (''B'', 71436183 / 204800000)]"
    using s4 by (simp only:)
  have "rounds dangling_corpus (17 / 20) (Suc 5) = next_ranks dangling_corpus (17 / 20) (rounds dangling_corpus (17 / 20) 5)"
    by (rule rounds.simps(2))
  then show s5: "rounds dangling_corpus (17 / 20) (Suc 5) = [(''A'', 5310415111 / 8192000000), (''B'', 2881584889 / 8192000000)]"
    by (simp only: v5 dangling_next_5)
  have "(6::nat) = Suc 5" by simp
  then show v6: "rounds dangling_corpus (17 / 20) 6 = [(''A'', 5310415111 / 8192000000), (''B'', 2881584889 / 8192000000)]"
    using s5 by (simp only:)
  have "rounds dangling_corpus (17 / 20) (Suc 6) = next_ranks dangling_corpus (17 / 20) (rounds dangling_corpus (17 / 20) 6)"
    by (rule rounds.simps(2))
  then show s6: "rounds dangling_corpus (17 / 20) (Suc 6) = [(''A'', 212826943113 / 327680000000), (''B'', 114853056887 / 327680000000)]"
    by (simp only: v6 dangling_next_6)
  have "(7::nat) = Suc 6" by simp
  then show v7: "rounds dangling_corpus (17 / 20) 7 = [(''A'', 212826943113 / 327680000000), (''B'', 114853056887 / 327680000000)]"
    using s6 by (simp only:)
  have "rounds dangling_corpus (17 / 20) (Suc 7) = next_ranks dangling_corpus (17 / 20) (rounds dangling_corpus (17 / 20) 7)"
    by (rule rounds.simps(2))
  then show s7: "rounds dangling_corpus (17 / 20) (Suc 7) = [(''A'', 8506101967079 / 13107200000000), (''B'', 4601098032921 / 13107200000000)]"
    by (simp only: v7 dangling_next_7)
  have "(8::nat) = Suc 7" by simp
  then show v8: "rounds dangling_corpus (17 / 20) 8 = [(''A'', 8506101967079 / 13107200000000), (''B'', 4601098032921 / 13107200000000)]"
    using s7 by (simp only:)
qed

text \<open>
  Claim C3 as stated fails in its last part: the estimator returns the vector that
  entered the final round, not the \<open>new_rank\<close> computed in it. On the graph
  \<open>{A: {}, B: {A}}\<close> with damping 0.85 the two differ.
\<close>

theorem iterate_pagerank_returns_previous_vector:
  "iterate_pagerank dangling_corpus (17 / 20) = Some (Inr [(''A'', 212826943113 / 327680000000), (''B'', 114853056887 / 327680000000)]) \<and>
   iterate_round dangling_corpus (17 / 20) (length dangling_corpus) [(''A'', 212826943113 / 327680000000), (''B'', 114853056887 / 327680000000)] [(''A'', 212826943113 / 327680000000), (''B'', 114853056887 / 327680000000)] = Inr [(''A'', 8506101967079 / 13107200000000), (''B'', 4601098032921 / 13107200000000)] \<and>
   converged [(''A'', 212826943113 / 327680000000), (''B'', 114853056887 / 327680000000)] [(''A'', 8506101967079 / 13107200000000), (''B'', 4601098032921 / 13107200000000)] = Inr True \<and>
   ([(''A'', 212826943113 / 327680000000), (''B'', 114853056887 / 327680000000)] :: (string \<times> real) list) \<noteq> [(''A'', 8506101967079 / 13107200000000), (''B'', 4601098032921 / 13107200000000)]"
proof -
  note v = dangling_rounds
  have far: "\<not> close_enough (rounds dangling_corpus (17 / 20) 0) (rounds dangling_corpus (17 / 20) (Suc 0))"
    "\<not> close_enough (rounds dangling_corpus (17 / 20) 1) (rounds dangling_corpus (17 / 20) (Suc 1))"
    "\<not> close_enough (rounds dangling_corpus (17 / 20) 2) (rounds dangling_corpus (17 / 20) (Suc 2))"
    "\<not> close_enough (rounds dangling_corpus (17 / 20) 3) (rounds dangling_corpus (17 / 20) (Suc 3))"
    "\<not> close_enough (rounds dangling_corpus (17 / 20) 4) (rounds dangling_corpus (17 / 20) (Suc 4))"
    "\<not> close_enough (rounds dangling_corpus (17 / 20) 5) (rounds dangling_corpus (17 / 20) (Suc 5))"
    "\<not> close_enough (rounds dangling_corpus (17 / 20) 6) (rounds dangling_corpus (17 / 20) (Suc 6))"
    by (simp_all only: v dangling_test_0 dangling_test_1 dangling_test_2 dangling_test_3
        dangling_test_4 dangling_test_5 dangling_test_6 not_False_eq_True)
  have near: "close_enough (rounds dangling_corpus (17 / 20) 7) (rounds dangling_corpus (17 / 20) (Suc 7))"
    by (simp only: v dangling_test_7)
  have seven: "rounds dangling_corpus (17 / 20) 7 = [(''A'', 212826943113 / 327680000000), (''B'', 114853056887 / 327680000000)]"
    by (simp only: v)
  have "j = 0 \<or> j = 1 \<or> j = 2 \<or> j = 3 \<or> j = 4 \<or> j = 5 \<or> j = 6" if "j < 7" for j :: nat
    using that by arith
  then have first: "\<forall>j<7. \<not> close_enough (rounds dangling_corpus (17 / 20) j)
      (rounds dangling_corpus (17 / 20) (Suc j))"
    using far by blast
  have dk: "distinct (keys dangling_corpus)" and ne: "dangling_corpus \<noteq> []"
    by (simp_all add: dangling_corpus_def keys_def)
  have kx: "keys [(''A'', 212826943113 / 327680000000), (''B'', 114853056887 / 327680000000)] = keys dangling_corpus"
    and ky: "keys [(''A'', 8506101967079 / 13107200000000), (''B'', 4601098032921 / 13107200000000)] = keys [(''A'', 212826943113 / 327680000000), (''B'', 114853056887 / 327680000000)]"
    by (simp_all add: dangling_corpus_def keys_def)
  have "iterate_pagerank dangling_corpus (17 / 20) = Some (Inr (rounds dangling_corpus (17 / 20) 7))"
    by (rule iterate_pagerank_rounds[OF dk ne first near])
  then have "iterate_pagerank dangling_corpus (17 / 20) = Some (Inr [(''A'', 212826943113 / 327680000000), (''B'', 114853056887 / 327680000000)])"
    by (simp only: seven)
  moreover have "iterate_round dangling_corpus (17 / 20) (length dangling_corpus) [(''A'', 212826943113 / 327680000000), (''B'', 114853056887 / 327680000000)] [(''A'', 212826943113 / 327680000000), (''B'', 114853056887 / 327680000000)] = Inr [(''A'', 8506101967079 / 13107200000000), (''B'', 4601098032921 / 13107200000000)]"
    by (simp only: iterate_round_closed[OF dk ne kx kx] dangling_next_7)
  moreover have "converged [(''A'', 212826943113 / 327680000000), (''B'', 114853056887 / 327680000000)] [(''A'', 8506101967079 / 13107200000000), (''B'', 4601098032921 / 13107200000000)] = Inr True"
    using dangling_test_7 by (simp only: converged_closed[OF ky])
  moreover have "([(''A'', 212826943113 / 327680000000), (''B'', 114853056887 / 327680000000)] :: (string \<times> real) list) \<noteq> [(''A'', 8506101967079 / 13107200000000), (''B'', 4601098032921 / 13107200000000)]"
    by simp
  ultimately show ?thesis by blast
qed

text \<open>
  Claim C3, amended. For a valid graph with at least one page and \<open>0 < d < 1\<close>,
  \<open>iterate_pagerank\<close> stops at the first round \<open>k\<close> in which every page has
  \<open>|new_rank(p) - rank(p)| < 0.001\<close>, both vectors taken whole (\<open>rank\<close> from the previous
  round), and returns \<open>rank\<close>, the vector that entered that round; every value of it is
  within 0.001 of the \<open>new_rank\<close> computed in that round. Round \<open>j\<close> of the loop turns
  \<open>rounds corpus d j\<close> into \<open>rounds corpus d (j + 1)\<close> and tests exactly \<open>close_enough\<close>.
\<close>

theorem iterate_pagerank_stops_at_first_close_round:
  assumes "valid_graph corpus" and "corpus \<noteq> []" and "0 < d" and "d < 1"
  shows "\<exists>k. (\<forall>j<k. \<not> close_enough (rounds corpus d j) (rounds corpus d (Suc j))) \<and>
     close_enough (rounds corpus d k) (rounds corpus d (Suc k)) \<and>
     iterate_pagerank corpus d = Some (Inr (rounds corpus d k)) \<and>
     (\<forall>j. iterate_round corpus d (length corpus) (rounds corpus d j) (rounds corpus d j) =
            Inr (rounds corpus d (Suc j)) \<and>
          converged (rounds corpus d j) (rounds corpus d (Suc j)) =
            Inr (close_enough (rounds corpus d j) (rounds corpus d (Suc j))))"
proof -
  have dk: "distinct (keys corpus)" using assms(1) by (simp add: valid_graph_def)
  have d0: "0 \<le> d" using assms(3) by simp
  obtain k where first: "\<forall>j<k. \<not> close_enough (rounds corpus d j) (rounds corpus d (Suc j))"
    and stop: "close_enough (rounds corpus d k) (rounds corpus d (Suc k))"
    using first_close_round[OF assms(1) d0 assms(4)] by blast
  have ret: "iterate_pagerank corpus d = Some (Inr (rounds corpus d k))"
    by (rule iterate_pagerank_rounds[OF dk assms(2) first stop])
  have round: "iterate_round corpus d (length corpus) (rounds corpus d j) (rounds corpus d j) =
      Inr (rounds corpus d (Suc j))" for j
    by (simp add: iterate_round_closed[OF dk assms(2) keys_rounds keys_rounds])
  have test: "converged (rounds corpus d j) (rounds corpus d (Suc j)) =
      Inr (close_enough (rounds corpus d j) (rounds corpus d (Suc j)))" for j
    by (rule converged_closed) (simp only: keys_rounds)
  show ?thesis using first stop ret round test by blast
qed

text \<open>The hypotheses of the amended C3 hold for \<open>{A: {}, B: {A}}\<close> and damping 0.85.\<close>

theorem iterate_pagerank_stops_at_first_close_round_witness:
  "valid_graph dangling_corpus \<and> dangling_corpus \<noteq> [] \<and> (0::real) < 17 / 20 \<and>
   (17 / 20 :: real) < 1 \<and>
   (\<exists>k. close_enough (rounds dangling_corpus (17 / 20) k) (rounds dangling_corpus (17 / 20) (Suc k)) \<and>
      iterate_pagerank dangling_corpus (17 / 20) = Some (Inr (rounds dangling_corpus (17 / 20) k)))"
proof -
  have ne: "dangling_corpus \<noteq> []" by (simp add: dangling_corpus_def)
  have d: "(0::real) < 17 / 20" "(17 / 20 :: real) < 1" by simp_all
  show ?thesis
    using valid_dangling_corpus ne d
      iterate_pagerank_stops_at_first_close_round[OF valid_dangling_corpus ne d]
    by blast
qed

text \<open>
  Claim C6. In exact arithmetic, for a valid graph with at least one page and
  \<open>0 < d < 1\<close>: the initial vector (every page at \<open>1 / N\<close>) maps every page of the corpus to
  a value in [0,1] and sums to 1; every round of the recurrence preserves this; and
  \<open>iterate_pagerank\<close> returns a vector with the same property.
\<close>

theorem iterate_pagerank_rank_vector:
  assumes "valid_graph corpus" and "corpus \<noteq> []" and "0 < d" and "d < 1"
  shows "rank_vector corpus (fromkeys (keys corpus) (1 / real (length corpus))) \<and>
     (\<forall>rank new_rank. rank_vector corpus rank \<and> keys new_rank = keys corpus \<longrightarrow>
        (\<exists>new_rank'. iterate_round corpus d (length corpus) rank new_rank = Inr new_rank' \<and>
           rank_vector corpus new_rank')) \<and>
     (\<exists>ranks. iterate_pagerank corpus d = Some (Inr ranks) \<and> rank_vector corpus ranks)"
proof -
  have dk: "distinct (keys corpus)" using assms(1) by (simp add: valid_graph_def)
  have d: "0 \<le> d" "d \<le> 1" using assms(3,4) by simp_all
  have "fromkeys (keys corpus) (1 / real (length corpus)) = rounds corpus d 0"
    by (simp add: fromkeys_distinct[OF dk])
  then have start: "rank_vector corpus (fromkeys (keys corpus) (1 / real (length corpus)))"
    using rank_vector_start[OF assms(2), of d] by (simp only:)
  have step: "\<exists>new_rank'. iterate_round corpus d (length corpus) rank new_rank = Inr new_rank' \<and>
           rank_vector corpus new_rank'"
    if "rank_vector corpus rank \<and> keys new_rank = keys corpus" for rank new_rank
  proof -
    have kr: "keys rank = keys corpus" using that by (simp add: rank_vector_def)
    have "iterate_round corpus d (length corpus) rank new_rank = Inr (next_ranks corpus d rank)"
      using that by (intro iterate_round_closed[OF dk assms(2) kr]) simp
    moreover have "rank_vector corpus (next_ranks corpus d rank)"
      using that by (intro rank_vector_next[OF assms(1,2) d]) simp
    ultimately show ?thesis by blast
  qed
  obtain k where first: "\<forall>j<k. \<not> close_enough (rounds corpus d j) (rounds corpus d (Suc j))"
    and stop: "close_enough (rounds corpus d k) (rounds corpus d (Suc k))"
    using first_close_round[OF assms(1) d(1) assms(4)] by blast
  have "iterate_pagerank corpus d = Some (Inr (rounds corpus d k))"
    by (rule iterate_pagerank_rounds[OF dk assms(2) first stop])
  moreover have "rank_vector corpus (rounds corpus d k)"
    by (rule rank_vector_rounds[OF assms(1,2) d])
  ultimately have final: "\<exists>ranks. iterate_pagerank corpus d = Some (Inr ranks) \<and> rank_vector corpus ranks"
    by blast
  show ?thesis using start step final by blast
qed

text \<open>The hypotheses of C6 hold for the three-page example and damping 0.85.\<close>

theorem iterate_pagerank_rank_vector_witness:
  "valid_graph example_corpus \<and> example_corpus \<noteq> [] \<and> (0::real) < 85 / 100 \<and>
   (85 / 100 :: real) < 1 \<and>
   rank_vector example_corpus (fromkeys (keys example_corpus) (1 / real (length example_corpus))) \<and>
   (\<exists>ranks. iterate_pagerank example_corpus (85 / 100) = Some (Inr ranks) \<and>
      rank_vector example_corpus ranks)"
proof -
  have ne: "example_corpus \<noteq> []" by (simp add: example_corpus_def)
  have d: "(0::real) < 85 / 100" "(85 / 100 :: real) < 1" by simp_all
  show ?thesis
    using valid_example_corpus ne d
      iterate_pagerank_rank_vector[OF valid_example_corpus ne d]
    by blast
qed

end
